theory Spec2Isabelle
  imports Main "HOL-Library.AList" "HOL-Library.Char_ord" "HOL-Library.List_Lexorder"
begin

section \<open>Values, dictionaries and exceptions\<close>

text \<open>
  The program is \<^verbatim>\<open>backend/backend_app.py\<close>: a Flask application over one global list
  \<^verbatim>\<open>POSTS\<close> of dictionaries. A post is a Python dictionary with string keys; its values
  are whatever the JSON body of a request carried. The model covers the scalar JSON
  values: \<^verbatim>\<open>null\<close>, booleans, integers and strings (no floats, no nested arrays or
  objects as field values). A dictionary is an association list in insertion order, read
  with \<^const>\<open>map_of\<close> and written with \<^const>\<open>AList.update\<close>, which overwrites the
  value of a present key in place and appends an absent key, as Python's item assignment
  does. A string is a list of characters, compared by character code as Python compares
  code points.
\<close>

datatype pyval = VNone | VBool bool | VInt int | VStr string

type_synonym post = "(string \<times> pyval) list"

datatype py_exn = KeyError | TypeError | ValueError

text \<open>Python's \<^verbatim>\<open>bool\<close> is a subtype of \<^verbatim>\<open>int\<close>: \<^verbatim>\<open>True == 1\<close>, \<^verbatim>\<open>True + 1 == 2\<close>.\<close>

fun num_of :: "pyval \<Rightarrow> int option" where
  "num_of (VBool b) = Some (if b then 1 else 0)"
| "num_of (VInt n) = Some n"
| "num_of _ = None"

text \<open>\<^verbatim>\<open>a == b\<close> on scalar values: never raises.\<close>

fun py_eq :: "pyval \<Rightarrow> pyval \<Rightarrow> bool" where
  "py_eq (VStr a) (VStr b) = (a = b)"
| "py_eq VNone VNone = True"
| "py_eq a b = (case (num_of a, num_of b) of (Some m, Some n) \<Rightarrow> m = n | _ \<Rightarrow> False)"

text \<open>\<^verbatim>\<open>a > b\<close>: defined between two strings and between two numbers, TypeError otherwise.\<close>

fun py_gt :: "pyval \<Rightarrow> pyval \<Rightarrow> py_exn + bool" where
  "py_gt (VStr a) (VStr b) = Inr (a > b)"
| "py_gt a b = (case (num_of a, num_of b) of (Some m, Some n) \<Rightarrow> Inr (m > n) | _ \<Rightarrow> Inl TypeError)"

text \<open>\<^verbatim>\<open>a + 1\<close>: an integer for a number, TypeError for a string or \<^verbatim>\<open>None\<close>.\<close>

definition py_add1 :: "pyval \<Rightarrow> py_exn + pyval" where
  "py_add1 a = (case num_of a of Some n \<Rightarrow> Inr (VInt (n + 1)) | None \<Rightarrow> Inl TypeError)"

text \<open>Truthiness of a query parameter (\<^verbatim>\<open>request.args.get\<close> gives a string or \<^verbatim>\<open>None\<close>)
  and of a dictionary-or-\<^verbatim>\<open>None\<close>.\<close>

fun truthy_str :: "string option \<Rightarrow> bool" where
  "truthy_str None = False"
| "truthy_str (Some s) = (s \<noteq> [])"

fun truthy_post :: "post option \<Rightarrow> bool" where
  "truthy_post None = False"
| "truthy_post (Some d) = (d \<noteq> [])"

subsection \<open>Substring test\<close>

fun is_prefix :: "string \<Rightarrow> string \<Rightarrow> bool" where
  "is_prefix [] ys = True"
| "is_prefix (x # xs) [] = False"
| "is_prefix (x # xs) (y # ys) = (x = y \<and> is_prefix xs ys)"

text \<open>\<^verbatim>\<open>needle in hay\<close> for two strings.\<close>

fun str_contains :: "string \<Rightarrow> string \<Rightarrow> bool" where
  "str_contains needle [] = (needle = [])"
| "str_contains needle (c # cs) = (is_prefix needle (c # cs) \<or> str_contains needle cs)"

text \<open>\<^verbatim>\<open>needle in v\<close> for a string \<^verbatim>\<open>needle\<close> and a stored value: a substring test on a
  string, TypeError on a number, a boolean or \<^verbatim>\<open>None\<close> (not iterable).\<close>

fun py_in :: "string \<Rightarrow> pyval \<Rightarrow> py_exn + bool" where
  "py_in needle (VStr s) = Inr (str_contains needle s)"
| "py_in needle _ = Inl TypeError"

subsection \<open>The builtin \<^verbatim>\<open>int\<close> on a string\<close>

text \<open>
  A character stands for a code point below 256. \<^verbatim>\<open>int(s)\<close> skips whitespace at both
  ends, reads an optional sign and then decimal digits, where single underscores may
  separate digits; anything else is a ValueError, and so is a literal of more than 4300
  digits (the default limit of CPython 3.11 on the conversion). The whitespace that
  \<^verbatim>\<open>int\<close> skips is the ASCII set (tab to carriage return, and the space) together with
  the two non-ASCII whitespace code points of this range, U+0085 and U+00A0; the
  separators U+001C to U+001F are not skipped. No code point from 128 to 255 is a decimal
  digit.
\<close>

definition py_isspace :: "char \<Rightarrow> bool" where
  "py_isspace c = (let n = (of_char c :: nat) in (9 \<le> n \<and> n \<le> 13) \<or> n = 32 \<or> n = 133 \<or> n = 160)"

definition strip :: "string \<Rightarrow> string" where
  "strip s = rev (dropWhile py_isspace (rev (dropWhile py_isspace s)))"

definition digit_of :: "char \<Rightarrow> nat option" where
  "digit_of c = (let n = (of_char c :: nat) in if 48 \<le> n \<and> n \<le> 57 then Some (n - 48) else None)"

fun parse_digits :: "nat \<Rightarrow> string \<Rightarrow> nat option" where
  "parse_digits acc [] = Some acc"
| "parse_digits acc (c # cs) =
     (if c = CHR ''_'' then
        (case cs of
           [] \<Rightarrow> None
         | d # ds \<Rightarrow> (case digit_of d of None \<Rightarrow> None | Some v \<Rightarrow> parse_digits (10 * acc + v) ds))
      else (case digit_of c of None \<Rightarrow> None | Some v \<Rightarrow> parse_digits (10 * acc + v) cs))"

definition parse_number :: "string \<Rightarrow> nat option" where
  "parse_number s =
     (if length (filter (\<lambda>c. c \<noteq> CHR ''_'') s) > 4300 then None
      else
        (case s of
           [] \<Rightarrow> None
         | c # cs \<Rightarrow> (case digit_of c of None \<Rightarrow> None | Some v \<Rightarrow> parse_digits v cs)))"

definition py_int :: "string \<Rightarrow> py_exn + int" where
  "py_int s =
     (let t = strip s;
          r = (case t of
                 [] \<Rightarrow> None
               | c # cs \<Rightarrow>
                   if c = CHR ''-'' then map_option (\<lambda>n. - int n) (parse_number cs)
                   else if c = CHR ''+'' then map_option int (parse_number cs)
                   else map_option int (parse_number t))
      in case r of None \<Rightarrow> Inl ValueError | Some n \<Rightarrow> Inr n)"

section \<open>Requests and responses\<close>

text \<open>
  Every handler takes the request's data and the current \<^verbatim>\<open>POSTS\<close> and returns the
  response together with \<^verbatim>\<open>POSTS\<close> as the handler leaves it. The responses of the source:
  \<^item> \<open>Created p\<close>: the new post, status 201;
  \<^item> \<open>Posts ps\<close>: a list of posts, status 200;
  \<^item> \<open>Deleted n\<close>, \<open>Updated n\<close>: the confirmation messages naming the id, status 200;
  \<^item> \<open>ValidationError\<close>: status 400, "Invalid post data - either 'title' or 'content' is
    missing.";
  \<^item> \<open>DuplicateError\<close>: status 409, "Post already exists";
  \<^item> \<open>NotFoundError\<close>: status 404, "Post not found";
  \<^item> \<open>InvalidSortField f\<close>, \<open>InvalidSortDirection d\<close>: status 400, naming the value;
  \<^item> \<open>Raised e\<close>: an exception that no handler catches leaves the view function.
\<close>

datatype response =
    Created post
  | Posts "post list"
  | Deleted int
  | Updated int
  | ValidationError
  | DuplicateError
  | NotFoundError
  | InvalidSortField string
  | InvalidSortDirection string
  | Raised py_exn

datatype request = POST post | GET "string option" "string option"

definition POSTS_initial :: "post list" where
  "POSTS_initial =
     [[(''post_id'', VInt 1), (''title'', VStr ''First post''), (''content'', VStr ''This is the first post.'')],
      [(''post_id'', VInt 2), (''title'', VStr ''Second post''), (''content'', VStr ''This is the second post.'')]]"

section \<open>Helpers of the source\<close>

definition validate_post_data :: "post \<Rightarrow> bool" where
  "validate_post_data data =
     (if map_of data ''title'' = None \<or> map_of data ''content'' = None then False else True)"

text \<open>The loop of \<^verbatim>\<open>find_existing_post\<close>; a subscript of an absent key raises KeyError.\<close>

fun find_existing_post :: "post \<Rightarrow> post list \<Rightarrow> py_exn + post option" where
  "find_existing_post post [] = Inr None"
| "find_existing_post post (existing_post # rest) =
     (case map_of existing_post ''title'' of
        None \<Rightarrow> Inl KeyError
      | Some et \<Rightarrow>
          (case map_of post ''title'' of
             None \<Rightarrow> Inl KeyError
           | Some pt \<Rightarrow>
               if py_eq et pt then
                 (case map_of existing_post ''content'' of
                    None \<Rightarrow> Inl KeyError
                  | Some ec \<Rightarrow>
                      (case map_of post ''content'' of
                         None \<Rightarrow> Inl KeyError
                       | Some pc \<Rightarrow>
                           if py_eq ec pc then Inr (Some existing_post)
                           else find_existing_post post rest))
               else find_existing_post post rest))"

text \<open>
  \<^verbatim>\<open>find_post_by_id\<close> returns a reference to an element of \<^verbatim>\<open>POSTS\<close>, which
  \<^verbatim>\<open>update_post\<close> then mutates in place. The reference is the element's position: the
  loop is \<open>find_post_index\<close>, and \<open>find_post_by_id\<close> reads the element there. The
  \<^verbatim>\<open>except KeyError: pass\<close> skips a post without a \<^verbatim>\<open>post_id\<close>.
\<close>

fun find_post_index :: "int \<Rightarrow> post list \<Rightarrow> nat option" where
  "find_post_index post_id [] = None"
| "find_post_index post_id (post # rest) =
     (case map_of post ''post_id'' of
        None \<Rightarrow> map_option Suc (find_post_index post_id rest)
      | Some v \<Rightarrow>
          if py_eq v (VInt post_id) then Some 0
          else map_option Suc (find_post_index post_id rest))"

definition find_post_by_id :: "int \<Rightarrow> post list \<Rightarrow> post option" where
  "find_post_by_id post_id posts = map_option (\<lambda>i. posts ! i) (find_post_index post_id posts)"

definition is_valid_sort_field :: "string \<Rightarrow> bool" where
  "is_valid_sort_field field = (field \<in> set [''title'', ''content''])"

definition is_valid_sort_direction :: "string \<Rightarrow> bool" where
  "is_valid_sort_direction direction = (direction \<in> set [''asc'', ''desc''])"

subsection \<open>The builtins \<^verbatim>\<open>max\<close>, \<^verbatim>\<open>sorted\<close> and \<^verbatim>\<open>list.remove\<close>\<close>

text \<open>
  \<^verbatim>\<open>max(post['post_id'] for post in POSTS)\<close>: ValueError on no post; otherwise the
  generator is consumed from the left, each item compared with the running maximum by
  \<^verbatim>\<open>item > max\<close>.
\<close>

fun max_loop :: "pyval \<Rightarrow> post list \<Rightarrow> py_exn + pyval" where
  "max_loop cur [] = Inr cur"
| "max_loop cur (post # rest) =
     (case map_of post ''post_id'' of
        None \<Rightarrow> Inl KeyError
      | Some item \<Rightarrow>
          (case py_gt item cur of
             Inl e \<Rightarrow> Inl e
           | Inr b \<Rightarrow> max_loop (if b then item else cur) rest))"

fun max_post_id :: "post list \<Rightarrow> py_exn + pyval" where
  "max_post_id [] = Inl ValueError"
| "max_post_id (post # rest) =
     (case map_of post ''post_id'' of
        None \<Rightarrow> Inl KeyError
      | Some item \<Rightarrow> max_loop item rest)"

text \<open>
  \<^verbatim>\<open>sorted(POSTS, key=lambda post: post[field])\<close>. The key of every post is computed
  first (KeyError where the field is absent). The sort is stable. A list of fewer than two
  posts is compared with nothing. Otherwise the keys must be all strings or all numbers:
  every element of a longer list takes part in a comparison, and a comparison across the
  two kinds, or with \<^verbatim>\<open>None\<close>, is a TypeError.
\<close>

definition str_key :: "string \<Rightarrow> post \<Rightarrow> string" where
  "str_key field post = (case map_of post field of Some (VStr s) \<Rightarrow> s | _ \<Rightarrow> [])"

definition num_key :: "string \<Rightarrow> post \<Rightarrow> int" where
  "num_key field post = (case map_of post field of Some v \<Rightarrow> (case num_of v of Some n \<Rightarrow> n | None \<Rightarrow> 0) | None \<Rightarrow> 0)"

definition has_key :: "string \<Rightarrow> post \<Rightarrow> bool" where
  "has_key field post = (map_of post field \<noteq> None)"

definition is_str_at :: "string \<Rightarrow> post \<Rightarrow> bool" where
  "is_str_at field post = (case map_of post field of Some (VStr s) \<Rightarrow> True | _ \<Rightarrow> False)"

definition is_num_at :: "string \<Rightarrow> post \<Rightarrow> bool" where
  "is_num_at field post = (case map_of post field of Some v \<Rightarrow> num_of v \<noteq> None | None \<Rightarrow> False)"

definition py_sorted :: "string \<Rightarrow> post list \<Rightarrow> py_exn + post list" where
  "py_sorted field posts =
     (if \<not> list_all (has_key field) posts then Inl KeyError
      else if length posts < 2 then Inr posts
      else if list_all (is_str_at field) posts then Inr (sort_key (str_key field) posts)
      else if list_all (is_num_at field) posts then Inr (sort_key (num_key field) posts)
      else Inl TypeError)"

text \<open>Equality of two dictionaries: the same keys, with equal values.\<close>

definition dict_le :: "post \<Rightarrow> post \<Rightarrow> bool" where
  "dict_le a b =
     list_all (\<lambda>k. case (map_of a k, map_of b k) of (Some v, Some w) \<Rightarrow> py_eq v w | _ \<Rightarrow> False)
       (map fst a)"

definition dict_eq :: "post \<Rightarrow> post \<Rightarrow> bool" where
  "dict_eq a b = (dict_le a b \<and> dict_le b a)"

text \<open>\<^verbatim>\<open>xs.remove(x)\<close> removes the first element equal to \<^verbatim>\<open>x\<close>, ValueError if none is.\<close>

fun list_remove :: "post \<Rightarrow> post list \<Rightarrow> py_exn + post list" where
  "list_remove x [] = Inl ValueError"
| "list_remove x (y # ys) =
     (if dict_eq y x then Inr ys
      else (case list_remove x ys of Inl e \<Rightarrow> Inl e | Inr zs \<Rightarrow> Inr (y # zs)))"

section \<open>The view functions\<close>

definition sort_posts :: "string option \<Rightarrow> string option \<Rightarrow> post list \<Rightarrow> py_exn + post list" where
  "sort_posts field direction POSTS =
     (if field = Some ''title'' then
        (case py_sorted ''title'' POSTS of
           Inl e \<Rightarrow> Inl e
         | Inr sorted_posts \<Rightarrow>
             Inr (if direction = Some ''desc'' then rev sorted_posts else sorted_posts))
      else if field = Some ''content'' then
        (case py_sorted ''content'' POSTS of
           Inl e \<Rightarrow> Inl e
         | Inr sorted_posts \<Rightarrow>
             Inr (if direction = Some ''desc'' then rev sorted_posts else sorted_posts))
      else Inr POSTS)"

fun get_posts :: "request \<Rightarrow> post list \<Rightarrow> response \<times> post list" where
  "get_posts (POST new_post) POSTS =
     (if \<not> validate_post_data new_post then (ValidationError, POSTS)
      else
        (case find_existing_post new_post POSTS of
           Inl e \<Rightarrow> (Raised e, POSTS)
         | Inr existing_post \<Rightarrow>
             if truthy_post existing_post then (DuplicateError, POSTS)
             else
               (case max_post_id POSTS of
                  Inl e \<Rightarrow> (Raised e, POSTS)
                | Inr m \<Rightarrow>
                    (case py_add1 m of
                       Inl e \<Rightarrow> (Raised e, POSTS)
                     | Inr new_id \<Rightarrow>
                         (let new_post' = AList.update ''post_id'' new_id new_post
                          in (Created new_post', POSTS @ [new_post']))))))"
| "get_posts (GET sort_field sort_direction) POSTS =
     (if truthy_str sort_field \<and> \<not> is_valid_sort_field (the sort_field)
      then (InvalidSortField (the sort_field), POSTS)
      else if truthy_str sort_direction \<and> \<not> is_valid_sort_direction (the sort_direction)
      then (InvalidSortDirection (the sort_direction), POSTS)
      else
        (case sort_posts sort_field sort_direction POSTS of
           Inl e \<Rightarrow> (Raised e, POSTS)
         | Inr sorted_posts \<Rightarrow> (Posts sorted_posts, POSTS)))"

definition delete_post :: "int \<Rightarrow> post list \<Rightarrow> response \<times> post list" where
  "delete_post post_id POSTS =
     (case find_post_by_id post_id POSTS of
        None \<Rightarrow> (NotFoundError, POSTS)
      | Some post \<Rightarrow>
          (case list_remove post POSTS of
             Inl e \<Rightarrow> (Raised e, POSTS)
           | Inr POSTS' \<Rightarrow> (Deleted post_id, POSTS')))"

definition update_post :: "int \<Rightarrow> post \<Rightarrow> post list \<Rightarrow> response \<times> post list" where
  "update_post post_id data POSTS =
     (case find_post_index post_id POSTS of
        None \<Rightarrow> (NotFoundError, POSTS)
      | Some i \<Rightarrow>
          (let post = POSTS ! i;
               post1 = (case map_of data ''title'' of
                          None \<Rightarrow> post
                        | Some v \<Rightarrow> AList.update ''title'' v post);
               post2 = (case map_of data ''content'' of
                          None \<Rightarrow> post1
                        | Some v \<Rightarrow> AList.update ''content'' v post1)
           in (Updated post_id, POSTS[i := post2])))"

text \<open>The list comprehension \<^verbatim>\<open>[post for post in POSTS if needle in post.get(field, '')]\<close>.\<close>

fun filter_in :: "string \<Rightarrow> string \<Rightarrow> post list \<Rightarrow> py_exn + post list" where
  "filter_in needle field [] = Inr []"
| "filter_in needle field (post # rest) =
     (case py_in needle (case map_of post field of None \<Rightarrow> VStr [] | Some v \<Rightarrow> v) of
        Inl e \<Rightarrow> Inl e
      | Inr b \<Rightarrow>
          (case filter_in needle field rest of
             Inl e \<Rightarrow> Inl e
           | Inr ps \<Rightarrow> Inr (if b then post # ps else ps)))"

definition post_search ::
  "string option \<Rightarrow> string option \<Rightarrow> string option \<Rightarrow> post list \<Rightarrow> response \<times> post list" where
  "post_search post_id content title POSTS =
     (if truthy_str post_id then
        (case py_int (the post_id) of
           Inl e \<Rightarrow> (Raised e, POSTS)
         | Inr n \<Rightarrow>
             (let post = find_post_by_id n POSTS
              in if truthy_post post then (Posts [the post], POSTS) else (Posts [], POSTS)))
      else
        (case (if truthy_str content then filter_in (the content) ''content'' POSTS else Inr []) of
           Inl e \<Rightarrow> (Raised e, POSTS)
         | Inr filtered_posts \<Rightarrow>
             (if truthy_str title then
                (case filter_in (the title) ''title'' POSTS of
                   Inl e \<Rightarrow> (Raised e, POSTS)
                 | Inr filtered_posts' \<Rightarrow> (Posts filtered_posts', POSTS))
              else (Posts filtered_posts, POSTS))))"

section \<open>Vocabulary of the statements\<close>

text \<open>\<open>has_id n post\<close>: the test of \<^verbatim>\<open>find_post_by_id\<close>, \<^verbatim>\<open>post['post_id'] == n\<close>
  with a missing key counted as no match.\<close>

definition has_id :: "int \<Rightarrow> post \<Rightarrow> bool" where
  "has_id n post = (case map_of post ''post_id'' of None \<Rightarrow> False | Some v \<Rightarrow> py_eq v (VInt n))"



text \<open>The data model gives a post an integer id. \<open>int_ids\<close> says that every post has an
  integer under \<^verbatim>\<open>post_id\<close>; \<open>id_of\<close> reads it.\<close>

definition has_int_id :: "post \<Rightarrow> bool" where
  "has_int_id post = (case map_of post ''post_id'' of Some (VInt n) \<Rightarrow> True | _ \<Rightarrow> False)"

definition id_of :: "post \<Rightarrow> int" where
  "id_of post = (case map_of post ''post_id'' of Some (VInt n) \<Rightarrow> n | _ \<Rightarrow> 0)"

definition int_ids :: "post list \<Rightarrow> bool" where
  "int_ids posts = list_all has_int_id posts"

text \<open>Every post has the keys \<^verbatim>\<open>title\<close> and \<^verbatim>\<open>content\<close>.\<close>

definition has_title_and_content :: "post list \<Rightarrow> bool" where
  "has_title_and_content posts = list_all (\<lambda>p. has_key ''title'' p \<and> has_key ''content'' p) posts"

text \<open>The two conditional assignments of \<^verbatim>\<open>update_post\<close>, as one function of the patch
  and the post.\<close>

definition patched :: "post \<Rightarrow> post \<Rightarrow> post" where
  "patched data post =
     (let post1 = (case map_of data ''title'' of None \<Rightarrow> post | Some v \<Rightarrow> AList.update ''title'' v post)
      in (case map_of data ''content'' of None \<Rightarrow> post1 | Some v \<Rightarrow> AList.update ''content'' v post1))"

text \<open>Two posts are tied on a field when both have it and the two values are equal by
  \<^verbatim>\<open>==\<close>.\<close>

definition tied :: "string \<Rightarrow> post \<Rightarrow> post \<Rightarrow> bool" where
  "tied field q p =
     (case (map_of q field, map_of p field) of (Some a, Some b) \<Rightarrow> py_eq a b | _ \<Rightarrow> False)"

text \<open>Sequences of mutating requests, each applied to the collection the previous one left.\<close>

datatype operation = Create post | Update int post | Delete int

fun apply_operation :: "operation \<Rightarrow> post list \<Rightarrow> post list" where
  "apply_operation (Create new_post) POSTS = snd (get_posts (POST new_post) POSTS)"
| "apply_operation (Update post_id data) POSTS = snd (update_post post_id data POSTS)"
| "apply_operation (Delete post_id) POSTS = snd (delete_post post_id POSTS)"

fun run :: "operation list \<Rightarrow> post list \<Rightarrow> post list" where
  "run [] POSTS = POSTS"
| "run (op # ops) POSTS = run ops (apply_operation op POSTS)"

text \<open>A collection with two posts of the same title.\<close>

definition POSTS_tied :: "post list" where
  "POSTS_tied =
     [[(''post_id'', VInt 1), (''title'', VStr ''b''), (''content'', VStr ''x'')],
      [(''post_id'', VInt 2), (''title'', VStr ''a''), (''content'', VStr ''y'')],
      [(''post_id'', VInt 3), (''title'', VStr ''b''), (''content'', VStr ''z'')]]"

text \<open>A candidate with a key beyond the title and the content.\<close>

definition candidate_with_author :: post where
  "candidate_with_author =
     [(''title'', VStr ''Third post''), (''content'', VStr ''This is the third post.''),
      (''author'', VStr ''Ann'')]"

text \<open>Two posts agree on every key other than \<^verbatim>\<open>title\<close> and \<^verbatim>\<open>content\<close>.\<close>

definition same_extras :: "post \<Rightarrow> post \<Rightarrow> bool" where
  "same_extras q p = (\<forall>k. k \<noteq> ''title'' \<and> k \<noteq> ''content'' \<longrightarrow> map_of q k = map_of p k)"

text \<open>Exactly one post of the collection has id \<open>n\<close>, and it agrees with \<open>p\<close> on every
  key other than \<^verbatim>\<open>title\<close> and \<^verbatim>\<open>content\<close>.\<close>

definition sole_post :: "int \<Rightarrow> post \<Rightarrow> post list \<Rightarrow> bool" where
  "sole_post n p posts = (\<exists>q. filter (has_id n) posts = [q] \<and> same_extras q p)"

text \<open>The post stored for \<open>candidate_with_author\<close> on the initial collection, and
  requests made after it.\<close>

definition stored_with_author :: post where
  "stored_with_author = candidate_with_author @ [(''post_id'', VInt 3)]"

definition later_requests :: "operation list" where
  "later_requests =
     [Update 3 [(''title'', VStr ''T''), (''author'', VStr ''Bob'')],
      Delete 1,
      Create [(''title'', VStr ''x''), (''content'', VStr ''y'')]]"


section \<open>Properties of the helpers and of the view functions\<close>

subsection \<open>Looking a post up by id\<close>

lemma py_eq_refl: "py_eq v v"
  by (cases v) auto

lemma find_post_index_Cons:
  "find_post_index n (p # ps) = (if has_id n p then Some 0 else map_option Suc (find_post_index n ps))"
  by (simp add: has_id_def split: option.splits)

declare find_post_index.simps(2) [simp del]

lemma find_post_index_None: "(find_post_index n ps = None) = (filter (has_id n) ps = [])"
  by (induction ps) (simp_all add: find_post_index_Cons)

lemma find_post_index_Some:
  "find_post_index n ps = Some i \<Longrightarrow> i < length ps \<and> has_id n (ps ! i) \<and> filter (has_id n) (take i ps) = []"
proof (induction ps arbitrary: i)
  case Nil
  then show ?case by simp
next
  case (Cons p ps)
  show ?case
  proof (cases "has_id n p")
    case True
    with Cons.prems show ?thesis by (simp add: find_post_index_Cons)
  next
    case False
    with Cons.prems obtain j where j: "find_post_index n ps = Some j" "i = Suc j"
      by (auto simp: find_post_index_Cons)
    from Cons.IH [OF j(1)] False j(2) show ?thesis by simp
  qed
qed

lemma find_post_by_id_Cons:
  "find_post_by_id n (p # ps) = (if has_id n p then Some p else find_post_by_id n ps)"
  by (simp add: find_post_by_id_def find_post_index_Cons option.map_comp comp_def)

lemma find_post_by_id_Nil: "find_post_by_id n [] = None"
  by (simp add: find_post_by_id_def)

lemma find_post_by_id_filter:
  "(case find_post_by_id n ps of None \<Rightarrow> [] | Some p \<Rightarrow> [p]) = take 1 (filter (has_id n) ps)"
  by (induction ps) (simp_all add: find_post_by_id_Cons find_post_by_id_Nil)

lemma find_post_by_id_truthy: "find_post_by_id n ps = Some p \<Longrightarrow> p \<noteq> [] \<and> has_id n p \<and> p \<in> set ps"
proof (induction ps)
  case Nil
  then show ?case by (simp add: find_post_by_id_Nil)
next
  case (Cons q ps)
  then show ?case
    by (auto simp: find_post_by_id_Cons has_id_def split: if_splits)
qed

lemma find_post_by_id_append:
  "filter (has_id n) ps = [] \<Longrightarrow> has_id n p \<Longrightarrow> find_post_by_id n (ps @ [p]) = Some p"
  by (induction ps) (auto simp: find_post_by_id_Cons find_post_by_id_Nil split: if_splits)

subsection \<open>Search\<close>

lemma is_prefix_iff: "is_prefix xs ys = (\<exists>zs. ys = xs @ zs)"
  by (induction xs ys rule: is_prefix.induct) auto

lemma str_contains_iff: "str_contains needle hay = (\<exists>pre suf. hay = pre @ needle @ suf)"
proof (induction hay)
  case Nil
  then show ?case by auto
next
  case (Cons c cs)
  show ?case
  proof
    assume "str_contains needle (c # cs)"
    then consider "is_prefix needle (c # cs)" | "str_contains needle cs" by auto
    then show "\<exists>pre suf. c # cs = pre @ needle @ suf"
    proof cases
      case 1
      then obtain zs where "c # cs = needle @ zs" by (auto simp: is_prefix_iff)
      then have "c # cs = [] @ needle @ zs" by simp
      then show ?thesis by blast
    next
      case 2
      with Cons obtain pre suf where "cs = pre @ needle @ suf" by auto
      then have "c # cs = (c # pre) @ needle @ suf" by simp
      then show ?thesis by blast
    qed
  next
    assume "\<exists>pre suf. c # cs = pre @ needle @ suf"
    then obtain pre suf where eq: "c # cs = pre @ needle @ suf" by blast
    show "str_contains needle (c # cs)"
    proof (cases pre)
      case Nil
      with eq have "is_prefix needle (c # cs)" by (auto simp: is_prefix_iff)
      then show ?thesis by simp
    next
      case (Cons a pre')
      with eq have "cs = pre' @ needle @ suf" by simp
      with Cons.IH show ?thesis by auto
    qed
  qed
qed

lemma search_by_id:
  assumes "truthy_str post_id" and "py_int (the post_id) = Inr n"
  shows "post_search post_id content title POSTS = (Posts (take 1 (filter (has_id n) POSTS)), POSTS)"
proof (cases "find_post_by_id n POSTS")
  case None
  with assms show ?thesis
    using find_post_by_id_filter [of n POSTS] by (simp add: post_search_def)
next
  case (Some p)
  with assms show ?thesis
    using find_post_by_id_filter [of n POSTS] find_post_by_id_truthy [OF Some]
    by (simp add: post_search_def)
qed






lemma filter_in_subset: "filter_in needle field ps = Inr xs \<Longrightarrow> set xs \<subseteq> set ps"
proof (induction ps arbitrary: xs)
  case Nil
  then show ?case by simp
next
  case (Cons p ps)
  from Cons.prems obtain b ys where
    ys: "filter_in needle field ps = Inr ys" and xs: "xs = (if b then p # ys else ys)"
    by (auto split: sum.splits)
  from Cons.IH [OF ys] xs show ?case by auto
qed

lemma search_result_subset:
  assumes "post_search i c t POSTS = (Posts xs, s)"
  shows "set xs \<subseteq> set POSTS"
proof (cases "truthy_str i")
  case True
  show ?thesis
  proof (cases "find_post_by_id (projr (py_int (the i))) POSTS")
    case None
    with assms True show ?thesis
      by (auto simp: post_search_def split: sum.splits)
  next
    case (Some p)
    from find_post_by_id_truthy [OF Some] Some assms True show ?thesis
      by (auto simp: post_search_def split: sum.splits)
  qed
next
  case False
  with assms show ?thesis
    by (auto simp: post_search_def split: sum.splits if_splits dest: filter_in_subset)
qed

subsection \<open>Create\<close>

lemma has_int_id_map_of: "has_int_id p \<Longrightarrow> map_of p ''post_id'' = Some (VInt (id_of p))"
  by (auto simp: has_int_id_def id_of_def split: option.splits pyval.splits)

lemma max_loop_int:
  "int_ids ps \<Longrightarrow> max_loop (VInt m) ps = Inr (VInt (fold max (map id_of ps) m))"
proof (induction ps arbitrary: m)
  case Nil
  then show ?case by simp
next
  case (Cons p ps)
  then have p: "map_of p ''post_id'' = Some (VInt (id_of p))" and ps: "int_ids ps"
    by (simp_all add: int_ids_def has_int_id_map_of)
  show ?case
    using Cons.IH [OF ps] p by (simp add: max_def)
qed

lemma max_post_id_int:
  assumes "int_ids ps" and "ps \<noteq> []"
  shows "max_post_id ps = Inr (VInt (Max (set (map id_of ps))))"
proof -
  from assms(2) obtain p rest where ps: "ps = p # rest" by (cases ps) auto
  with assms(1) have p: "map_of p ''post_id'' = Some (VInt (id_of p))" and rest: "int_ids rest"
    by (simp_all add: int_ids_def has_int_id_map_of)
  have "Max (set (map id_of (p # rest))) = fold max (map id_of rest) (id_of p)"
    using Max.set_eq_fold [of "id_of p" "map id_of rest"] by simp
  with p max_loop_int [OF rest] ps show ?thesis by simp
qed

lemma py_eq_num: "num_of b = Some n \<Longrightarrow> py_eq a b = (num_of a = Some n)"
  by (cases a; cases b) (auto split: if_splits)

lemma py_gt_num:
  "py_gt a b = Inr r \<Longrightarrow> (num_of a = None) = (num_of b = None)"
  by (cases a; cases b) (auto split: if_splits)

lemma py_gt_num_val:
  "num_of a = Some m \<Longrightarrow> num_of b = Some n \<Longrightarrow> py_gt a b = Inr (m > n)"
  by (cases a; cases b) (auto split: if_splits)

lemma max_loop_upper:
  "max_loop cur ps = Inr m \<Longrightarrow> num_of m = Some k \<Longrightarrow>
   (\<exists>c. num_of cur = Some c \<and> c \<le> k) \<and>
   (\<forall>p\<in>set ps. \<exists>v j. map_of p ''post_id'' = Some v \<and> num_of v = Some j \<and> j \<le> k)"
proof (induction ps arbitrary: cur)
  case Nil
  then show ?case by simp
next
  case (Cons p ps)
  from Cons.prems(1) obtain item b where
    item: "map_of p ''post_id'' = Some item" and b: "py_gt item cur = Inr b"
    and rest: "max_loop (if b then item else cur) ps = Inr m"
    by (auto split: option.splits sum.splits)
  from Cons.IH [OF rest Cons.prems(2)] obtain c where
    c: "num_of (if b then item else cur) = Some c" "c \<le> k"
    and tl: "\<forall>p\<in>set ps. \<exists>v j. map_of p ''post_id'' = Some v \<and> num_of v = Some j \<and> j \<le> k"
    by blast
  from c(1) py_gt_num [OF b] obtain i u where iu: "num_of item = Some i" "num_of cur = Some u"
    by (cases b) auto
  from py_gt_num_val [OF iu] b have "b = (i > u)" by simp
  with c iu have "i \<le> k \<and> u \<le> k" by (auto split: if_splits)
  with item iu tl show ?case by auto
qed

lemma max_post_id_upper:
  assumes "max_post_id ps = Inr m" and "num_of m = Some k"
  shows "\<forall>p\<in>set ps. \<exists>v j. map_of p ''post_id'' = Some v \<and> num_of v = Some j \<and> j \<le> k"
proof (cases ps)
  case Nil
  with assms show ?thesis by simp
next
  case (Cons p rest)
  with assms(1) obtain item where item: "map_of p ''post_id'' = Some item" "max_loop item rest = Inr m"
    by (auto split: option.splits)
  from max_loop_upper [OF item(2) assms(2)] item(1) Cons show ?thesis by auto
qed

lemma find_existing_post_dup:
  assumes "has_title_and_content ps" and "e \<in> set ps"
    and "map_of e ''title'' = Some t" and "map_of e ''content'' = Some c"
    and "map_of cand ''title'' = Some t" and "map_of cand ''content'' = Some c"
  shows "\<exists>d. find_existing_post cand ps = Inr (Some d) \<and> d \<noteq> []"
  using assms(1,2)
proof (induction ps)
  case Nil
  then show ?case by simp
next
  case (Cons q ps)
  from Cons.prems(1) obtain qt qc where q: "map_of q ''title'' = Some qt" "map_of q ''content'' = Some qc"
    and ps: "has_title_and_content ps"
    by (auto simp: has_title_and_content_def has_key_def)
  from q have qne: "q \<noteq> []" by auto
  show ?case
  proof (cases "py_eq qt t \<and> py_eq qc c")
    case True
    with q assms(5,6) qne show ?thesis by simp
  next
    case False
    then have "e \<noteq> q" using q assms(3,4) by (auto simp: py_eq_refl)
    with Cons.prems(2) have "e \<in> set ps" by simp
    from Cons.IH [OF ps this] False q assms(5,6) show ?thesis by auto
  qed
qed

lemma create_duplicate:
  assumes "has_title_and_content POSTS" and "e \<in> set POSTS"
    and "map_of e ''title'' = Some t" and "map_of e ''content'' = Some c"
    and "map_of cand ''title'' = Some t" and "map_of cand ''content'' = Some c"
  shows "get_posts (POST cand) POSTS = (DuplicateError, POSTS)"
proof -
  from find_existing_post_dup [OF assms] obtain d where
    "find_existing_post cand POSTS = Inr (Some d)" "d \<noteq> []" by blast
  with assms(5,6) show ?thesis by (simp add: validate_post_data_def)
qed

lemma create_validation:
  "(fst (get_posts (POST cand) POSTS) = ValidationError) =
     (map_of cand ''title'' = None \<or> map_of cand ''content'' = None)"
  by (auto simp: validate_post_data_def Let_def split: sum.splits)

lemma create_validation_unchanged:
  "fst (get_posts (POST cand) POSTS) = ValidationError \<Longrightarrow> snd (get_posts (POST cand) POSTS) = POSTS"
  by (auto simp: validate_post_data_def Let_def split: sum.splits if_splits)

lemma create_Created:
  assumes "get_posts (POST cand) POSTS = (Created p, POSTS')"
  shows "\<exists>m new_id. max_post_id POSTS = Inr m \<and> py_add1 m = Inr new_id \<and>
           p = AList.update ''post_id'' new_id cand \<and> POSTS' = POSTS @ [p] \<and>
           validate_post_data cand \<and> \<not> truthy_post (projr (find_existing_post cand POSTS))"
  using assms by (auto simp: Let_def split: sum.splits if_splits)

lemma create_success:
  assumes "int_ids POSTS" and "POSTS \<noteq> []" and "validate_post_data cand"
    and "find_existing_post cand POSTS = Inr None"
  shows "get_posts (POST cand) POSTS =
           (Created (AList.update ''post_id'' (VInt (Max (set (map id_of POSTS)) + 1)) cand),
            POSTS @ [AList.update ''post_id'' (VInt (Max (set (map id_of POSTS)) + 1)) cand])"
  using assms max_post_id_int [OF assms(1,2)] by (simp add: py_add1_def Let_def)

lemma create_cases:
  "snd (get_posts (POST cand) POSTS) = POSTS \<or>
   (\<exists>p. get_posts (POST cand) POSTS = (Created p, POSTS @ [p]))"
  by (auto simp: Let_def split: sum.splits)

lemma id_of_le_Max: "q \<in> set ps \<Longrightarrow> id_of q \<le> Max (set (map id_of ps))"
  by simp

lemma create_Created_int:
  assumes "int_ids POSTS" and "get_posts (POST cand) POSTS = (Created p, POSTS')"
  shows "POSTS \<noteq> [] \<and> POSTS' = POSTS @ [p] \<and>
         p = AList.update ''post_id'' (VInt (Max (set (map id_of POSTS)) + 1)) cand"
proof -
  from create_Created [OF assms(2)] obtain m new_id where
    m: "max_post_id POSTS = Inr m" and n: "py_add1 m = Inr new_id"
    and p: "p = AList.update ''post_id'' new_id cand" and P: "POSTS' = POSTS @ [p]"
    by blast
  from m have ne: "POSTS \<noteq> []" by auto
  from max_post_id_int [OF assms(1) ne] m have "m = VInt (Max (set (map id_of POSTS)))" by simp
  with n have "new_id = VInt (Max (set (map id_of POSTS)) + 1)" by (simp add: py_add1_def)
  with ne p P show ?thesis by simp
qed

lemma id_of_update_post_id: "id_of (AList.update ''post_id'' (VInt n) d) = n"
  by (simp add: id_of_def update_conv')

lemma has_int_id_update_post_id: "has_int_id (AList.update ''post_id'' (VInt n) d)"
  by (simp add: has_int_id_def update_conv')

lemma create_new_id_greater:
  assumes "int_ids POSTS" and "get_posts (POST cand) POSTS = (Created p, POSTS')" and "q \<in> set POSTS"
  shows "id_of q < id_of p"
proof -
  from create_Created_int [OF assms(1,2)]
  have "id_of p = Max (set (map id_of POSTS)) + 1" by (simp add: id_of_update_post_id)
  with id_of_le_Max [OF assms(3)] show ?thesis by simp
qed

lemma create_new_id_fresh:
  assumes "get_posts (POST cand) POSTS = (Created p, POSTS')"
  shows "\<exists>n. map_of p ''post_id'' = Some (VInt n) \<and> find_post_by_id n POSTS' = Some p"
proof -
  from create_Created [OF assms] obtain m new_id where
    m: "max_post_id POSTS = Inr m" and n: "py_add1 m = Inr new_id"
    and p: "p = AList.update ''post_id'' new_id cand" and P: "POSTS' = POSTS @ [p]"
    by blast
  from n obtain k where k: "num_of m = Some k" "new_id = VInt (k + 1)"
    by (auto simp: py_add1_def split: option.splits)
  have idp: "map_of p ''post_id'' = Some (VInt (k + 1))"
    using p k by (simp add: update_conv')
  then have hp: "has_id (k + 1) p" by (simp add: has_id_def)
  have "\<not> has_id (k + 1) q" if "q \<in> set POSTS" for q
  proof -
    from max_post_id_upper [OF m k(1)] that obtain v j where
      "map_of q ''post_id'' = Some v" "num_of v = Some j" "j \<le> k" by blast
    then show ?thesis by (simp add: has_id_def py_eq_num [of "VInt (k + 1)" "k + 1"])
  qed
  then have "filter (has_id (k + 1)) POSTS = []" by (simp add: filter_empty_conv)
  from find_post_by_id_append [OF this hp] idp P show ?thesis by blast
qed

lemma create_preserves:
  assumes "int_ids POSTS" and "distinct (map id_of POSTS)"
  shows "int_ids (snd (get_posts (POST cand) POSTS)) \<and>
         distinct (map id_of (snd (get_posts (POST cand) POSTS)))"
proof -
  from create_cases [of cand POSTS] show ?thesis
  proof
    assume "snd (get_posts (POST cand) POSTS) = POSTS"
    with assms show ?thesis by simp
  next
    assume "\<exists>p. get_posts (POST cand) POSTS = (Created p, POSTS @ [p])"
    then obtain p where c: "get_posts (POST cand) POSTS = (Created p, POSTS @ [p])" by blast
    from create_Created_int [OF assms(1) c] have "has_int_id p"
      by (simp add: has_int_id_update_post_id)
    moreover have "id_of p \<notin> set (map id_of POSTS)"
      using create_new_id_greater [OF assms(1) c] by force
    ultimately show ?thesis using assms c by (simp add: int_ids_def)
  qed
qed

subsection \<open>Update\<close>

lemma map_of_patched:
  "map_of (patched data post) k =
     (if (k = ''title'' \<or> k = ''content'') \<and> map_of data k \<noteq> None then map_of data k
      else map_of post k)"
  by (auto simp: patched_def Let_def update_conv' split: option.splits)

lemma update_post_found:
  "find_post_index n POSTS = Some i \<Longrightarrow>
   update_post n data POSTS = (Updated n, POSTS[i := patched data (POSTS ! i)])"
  by (simp add: update_post_def patched_def Let_def)

lemma update_post_result:
  "update_post n data POSTS = (NotFoundError, POSTS) \<and> filter (has_id n) POSTS = [] \<or>
   (\<exists>i. i < length POSTS \<and> has_id n (POSTS ! i) \<and> filter (has_id n) (take i POSTS) = [] \<and>
       update_post n data POSTS = (Updated n, POSTS[i := patched data (POSTS ! i)]))"
proof (cases "find_post_index n POSTS")
  case None
  then have "filter (has_id n) POSTS = []" by (simp add: find_post_index_None)
  with None show ?thesis by (simp add: update_post_def)
next
  case (Some i)
  from find_post_index_Some [OF Some] update_post_found [OF Some] show ?thesis
    by blast
qed

lemma map_list_update_same: "f y = f (xs ! i) \<Longrightarrow> map f (xs[i := y]) = map f xs"
  by (cases "i < length xs") (simp_all add: map_update list_update_same_conv list_update_beyond)

lemma update_keeps_id_values:
  "map (\<lambda>p. map_of p ''post_id'') (snd (update_post n data POSTS)) = map (\<lambda>p. map_of p ''post_id'') POSTS"
  using update_post_result [of n data POSTS]
  by (auto simp: map_list_update_same map_of_patched)

lemma has_int_id_via: "has_int_id = (\<lambda>v. case v of Some (VInt n) \<Rightarrow> True | _ \<Rightarrow> False) \<circ> (\<lambda>p. map_of p ''post_id'')"
  by (simp add: fun_eq_iff has_int_id_def)

lemma id_of_via: "id_of = (\<lambda>v. case v of Some (VInt n) \<Rightarrow> n | _ \<Rightarrow> 0) \<circ> (\<lambda>p. map_of p ''post_id'')"
  by (simp add: fun_eq_iff id_of_def)

lemma update_keeps_ids: "map id_of (snd (update_post n data POSTS)) = map id_of POSTS"
  unfolding id_of_via map_map [symmetric] update_keeps_id_values ..

lemma update_preserves_int_ids: "int_ids (snd (update_post n data POSTS)) = int_ids POSTS"
proof -
  have "int_ids ps = list_all (\<lambda>v. case v of Some (VInt n) \<Rightarrow> True | _ \<Rightarrow> False) (map (\<lambda>p. map_of p ''post_id'') ps)" for ps
    by (simp add: int_ids_def has_int_id_via list.pred_map)
  then show ?thesis by (simp only: update_keeps_id_values)
qed

subsection \<open>Delete\<close>

lemma list_remove_result:
  "list_remove x ps = Inr ps' \<Longrightarrow> \<exists>i<length ps. ps' = take i ps @ drop (Suc i) ps"
proof (induction ps arbitrary: ps')
  case Nil
  then show ?case by simp
next
  case (Cons y ys)
  show ?case
  proof (cases "dict_eq y x")
    case True
    with Cons.prems have "ps' = take 0 (y # ys) @ drop (Suc 0) (y # ys)" by simp
    then show ?thesis by blast
  next
    case False
    with Cons.prems obtain zs where zs: "list_remove x ys = Inr zs" "ps' = y # zs"
      by (auto split: sum.splits)
    from Cons.IH [OF zs(1)] obtain i where "i < length ys" "zs = take i ys @ drop (Suc i) ys" by blast
    with zs(2) have "Suc i < length (y # ys) \<and> ps' = take (Suc i) (y # ys) @ drop (Suc (Suc i)) (y # ys)"
      by simp
    then show ?thesis by blast
  qed
qed

lemma delete_post_result:
  "snd (delete_post n POSTS) = POSTS \<or>
   (\<exists>i<length POSTS. snd (delete_post n POSTS) = take i POSTS @ drop (Suc i) POSTS)"
  by (auto simp: delete_post_def split: option.splits sum.splits dest: list_remove_result)

lemma distinct_remove_nth:
  "distinct (map f xs) \<Longrightarrow> distinct (map f (take i xs @ drop (Suc i) xs))"
proof -
  assume d: "distinct (map f xs)"
  define ys where "ys = map f xs"
  have eq: "map f (take i xs @ drop (Suc i) xs) = take i ys @ drop (Suc i) ys"
    by (simp add: ys_def take_map drop_map)
  have "set (take i ys) \<inter> set (drop (Suc i) ys) = {}"
    using set_take_disj_set_drop_if_distinct [of ys i "Suc i"] d by (simp add: ys_def)
  moreover have "distinct (take i ys)" "distinct (drop (Suc i) ys)"
    using d by (simp_all add: ys_def)
  ultimately have "distinct (take i ys @ drop (Suc i) ys)"
    by (simp only: distinct_append simp_thms)
  with eq show ?thesis by (simp only:)
qed

lemma delete_preserves:
  assumes "int_ids POSTS" and "distinct (map id_of POSTS)"
  shows "int_ids (snd (delete_post n POSTS)) \<and> distinct (map id_of (snd (delete_post n POSTS)))"
proof -
  from delete_post_result [of n POSTS] show ?thesis
  proof
    assume "snd (delete_post n POSTS) = POSTS"
    with assms show ?thesis by simp
  next
    assume "\<exists>i<length POSTS. snd (delete_post n POSTS) = take i POSTS @ drop (Suc i) POSTS"
    then obtain i where i: "snd (delete_post n POSTS) = take i POSTS @ drop (Suc i) POSTS" by blast
    have "int_ids (take i POSTS @ drop (Suc i) POSTS)"
      using assms(1) by (auto simp: int_ids_def list_all_iff dest: in_set_takeD in_set_dropD)
    with i distinct_remove_nth [OF assms(2)] show ?thesis by simp
  qed
qed

subsection \<open>Sequences of requests\<close>

lemma apply_operation_preserves:
  assumes "int_ids POSTS" and "distinct (map id_of POSTS)"
  shows "int_ids (apply_operation op POSTS) \<and> distinct (map id_of (apply_operation op POSTS))"
proof (cases op)
  case (Create c)
  with create_preserves [OF assms] show ?thesis by simp
next
  case (Update n d)
  with assms show ?thesis by (simp add: update_keeps_ids update_preserves_int_ids)
next
  case (Delete n)
  with delete_preserves [OF assms] show ?thesis by simp
qed

lemma run_preserves:
  "int_ids POSTS \<Longrightarrow> distinct (map id_of POSTS) \<Longrightarrow>
   int_ids (run ops POSTS) \<and> distinct (map id_of (run ops POSTS))"
proof (induction ops arbitrary: POSTS)
  case Nil
  then show ?case by simp
next
  case (Cons op ops)
  from apply_operation_preserves [OF Cons.prems]
  have "int_ids (apply_operation op POSTS)" "distinct (map id_of (apply_operation op POSTS))"
    by simp_all
  from Cons.IH [OF this] show ?case by simp
qed

lemma has_fields_patched:
  "has_key ''title'' p \<and> has_key ''content'' p \<Longrightarrow>
   has_key ''title'' (patched data p) \<and> has_key ''content'' (patched data p)"
  by (simp add: has_key_def map_of_patched)

lemma create_preserves_fields:
  assumes "has_title_and_content POSTS"
  shows "has_title_and_content (snd (get_posts (POST cand) POSTS))"
proof -
  from create_cases [of cand POSTS] show ?thesis
  proof
    assume "snd (get_posts (POST cand) POSTS) = POSTS"
    with assms show ?thesis by simp
  next
    assume "\<exists>p. get_posts (POST cand) POSTS = (Created p, POSTS @ [p])"
    then obtain p where c: "get_posts (POST cand) POSTS = (Created p, POSTS @ [p])" by blast
    from create_Created [OF c] obtain new_id where
      "p = AList.update ''post_id'' new_id cand" "validate_post_data cand" by blast
    then have "has_key ''title'' p \<and> has_key ''content'' p"
      by (auto simp: has_key_def update_conv' validate_post_data_def split: if_splits)
    with assms c show ?thesis by (simp add: has_title_and_content_def)
  qed
qed

lemma update_preserves_fields:
  assumes "has_title_and_content POSTS"
  shows "has_title_and_content (snd (update_post n data POSTS))"
proof -
  from update_post_result [of n data POSTS] show ?thesis
  proof
    assume "update_post n data POSTS = (NotFoundError, POSTS) \<and> filter (has_id n) POSTS = []"
    with assms show ?thesis by simp
  next
    assume "\<exists>i. i < length POSTS \<and> has_id n (POSTS ! i) \<and> filter (has_id n) (take i POSTS) = [] \<and>
       update_post n data POSTS = (Updated n, POSTS[i := patched data (POSTS ! i)])"
    then obtain i where i: "i < length POSTS"
      and u: "update_post n data POSTS = (Updated n, POSTS[i := patched data (POSTS ! i)])" by blast
    from assms i have "has_key ''title'' (POSTS ! i) \<and> has_key ''content'' (POSTS ! i)"
      by (simp add: has_title_and_content_def list_all_length)
    from has_fields_patched [OF this, of data] assms
    have "has_title_and_content (POSTS[i := patched data (POSTS ! i)])"
      by (auto simp: has_title_and_content_def list_all_iff dest!: set_update_subset_insert [THEN subsetD])
    with u show ?thesis by simp
  qed
qed

lemma delete_preserves_fields:
  assumes "has_title_and_content POSTS"
  shows "has_title_and_content (snd (delete_post n POSTS))"
proof -
  from delete_post_result [of n POSTS] show ?thesis
  proof
    assume "snd (delete_post n POSTS) = POSTS"
    with assms show ?thesis by simp
  next
    assume "\<exists>i<length POSTS. snd (delete_post n POSTS) = take i POSTS @ drop (Suc i) POSTS"
    then obtain i where i: "snd (delete_post n POSTS) = take i POSTS @ drop (Suc i) POSTS" by blast
    have "has_title_and_content (take i POSTS @ drop (Suc i) POSTS)"
      using assms by (auto simp: has_title_and_content_def list_all_iff dest: in_set_takeD in_set_dropD)
    with i show ?thesis by simp
  qed
qed

lemma run_preserves_fields:
  "has_title_and_content POSTS \<Longrightarrow> has_title_and_content (run ops POSTS)"
proof (induction ops arbitrary: POSTS)
  case Nil
  then show ?case by simp
next
  case (Cons op ops)
  have "has_title_and_content (apply_operation op POSTS)"
    using Cons.prems
    by (cases op)
       (simp_all add: create_preserves_fields update_preserves_fields delete_preserves_fields
          del: get_posts.simps)
  from Cons.IH [OF this] show ?case by simp
qed

lemma initial_has_fields: "has_title_and_content POSTS_initial"
  by (simp add: has_title_and_content_def POSTS_initial_def has_key_def)

lemma initial_ids: "int_ids POSTS_initial \<and> distinct (map id_of POSTS_initial)"
  by (simp add: int_ids_def POSTS_initial_def has_int_id_def id_of_def)

subsection \<open>Listing and sorting\<close>

lemma tied_str:
  assumes "is_str_at field p"
  shows "tied field q p = (case map_of q field of Some (VStr k) \<Rightarrow> str_key field p = k | _ \<Rightarrow> False)"
  using assms
  by (auto simp: tied_def is_str_at_def str_key_def split: option.splits pyval.splits)

lemma tied_num:
  assumes "is_num_at field p"
  shows "tied field q p =
    (case map_of q field of Some a \<Rightarrow> (case num_of a of Some k \<Rightarrow> num_key field p = k | None \<Rightarrow> False) | None \<Rightarrow> False)"
proof -
  from assms obtain b n where b: "map_of p field = Some b" "num_of b = Some n"
    by (auto simp: is_num_at_def split: option.splits)
  then show ?thesis
    by (auto simp: tied_def num_key_def py_eq_num split: option.splits)
qed

lemma filter_tied_sort_str:
  assumes "list_all (is_str_at field) ps"
  shows "filter (tied field q) (sort_key (str_key field) ps) = filter (tied field q) ps"
proof (cases "\<exists>k. map_of q field = Some (VStr k)")
  case True
  then obtain k where k: "map_of q field = Some (VStr k)" by blast
  have t: "tied field q p = (str_key field p = k)" if "p \<in> set ps" for p
    using that assms k by (simp add: tied_str list_all_iff)
  have "filter (tied field q) (sort_key (str_key field) ps) =
        filter (\<lambda>p. str_key field p = k) (sort_key (str_key field) ps)"
    by (rule filter_cong) (simp_all add: t)
  also have "\<dots> = filter (\<lambda>p. str_key field p = k) ps"
    by (rule sort_key_stable)
  also have "\<dots> = filter (tied field q) ps"
    by (rule filter_cong) (simp_all add: t)
  finally show ?thesis .
next
  case False
  have t: "\<not> tied field q p" if "p \<in> set ps" for p
    using that assms False by (auto simp: tied_str list_all_iff split: option.splits pyval.splits)
  have "filter (tied field q) (sort_key (str_key field) ps) = []"
    by (simp add: filter_empty_conv t)
  moreover have "filter (tied field q) ps = []"
    by (simp add: filter_empty_conv t)
  ultimately show ?thesis by simp
qed

lemma filter_tied_sort_num:
  assumes "list_all (is_num_at field) ps"
  shows "filter (tied field q) (sort_key (num_key field) ps) = filter (tied field q) ps"
proof (cases "\<exists>a k. map_of q field = Some a \<and> num_of a = Some k")
  case True
  then obtain a k where k: "map_of q field = Some a" "num_of a = Some k" by blast
  have t: "tied field q p = (num_key field p = k)" if "p \<in> set ps" for p
    using that assms k by (simp add: tied_num list_all_iff)
  have "filter (tied field q) (sort_key (num_key field) ps) =
        filter (\<lambda>p. num_key field p = k) (sort_key (num_key field) ps)"
    by (rule filter_cong) (simp_all add: t)
  also have "\<dots> = filter (\<lambda>p. num_key field p = k) ps"
    by (rule sort_key_stable)
  also have "\<dots> = filter (tied field q) ps"
    by (rule filter_cong) (simp_all add: t)
  finally show ?thesis .
next
  case False
  have t: "\<not> tied field q p" if "p \<in> set ps" for p
    using that assms False by (auto simp: tied_num list_all_iff split: option.splits)
  have "filter (tied field q) (sort_key (num_key field) ps) = []"
    by (simp add: filter_empty_conv t)
  moreover have "filter (tied field q) ps = []"
    by (simp add: filter_empty_conv t)
  ultimately show ?thesis by simp
qed

lemma py_sorted_stable:
  "py_sorted field ps = Inr xs \<Longrightarrow> filter (tied field q) xs = filter (tied field q) ps"
  by (auto simp: py_sorted_def filter_tied_sort_str filter_tied_sort_num split: if_splits)

lemma py_sorted_set: "py_sorted field ps = Inr xs \<Longrightarrow> set xs = set ps \<and> length xs = length ps"
  by (auto simp: py_sorted_def split: if_splits)

lemma sort_posts_asc:
  "is_valid_sort_field f \<Longrightarrow> sort_posts (Some f) (Some ''asc'') POSTS = py_sorted f POSTS"
  by (auto simp: is_valid_sort_field_def sort_posts_def split: sum.splits)

lemma sort_posts_desc:
  "is_valid_sort_field f \<Longrightarrow>
   sort_posts (Some f) (Some ''desc'') POSTS =
     (case py_sorted f POSTS of Inl e \<Rightarrow> Inl e | Inr xs \<Rightarrow> Inr (rev xs))"
  by (auto simp: is_valid_sort_field_def sort_posts_def split: sum.splits)

lemma list_asc:
  "is_valid_sort_field f \<Longrightarrow>
   get_posts (GET (Some f) (Some ''asc'')) POSTS =
     (case py_sorted f POSTS of Inl e \<Rightarrow> (Raised e, POSTS) | Inr xs \<Rightarrow> (Posts xs, POSTS))"
  by (simp add: sort_posts_asc is_valid_sort_direction_def)

lemma list_desc:
  "is_valid_sort_field f \<Longrightarrow>
   get_posts (GET (Some f) (Some ''desc'')) POSTS =
     (case py_sorted f POSTS of Inl e \<Rightarrow> (Raised e, POSTS) | Inr xs \<Rightarrow> (Posts (rev xs), POSTS))"
  by (simp add: sort_posts_desc is_valid_sort_direction_def split: sum.splits)

lemma list_unsorted: "get_posts (GET None None) POSTS = (Posts POSTS, POSTS)"
  by (simp add: sort_posts_def)

lemma sort_posts_set: "sort_posts f d ps = Inr xs \<Longrightarrow> set xs = set ps"
  by (auto simp: sort_posts_def split: if_splits sum.splits dest: py_sorted_set)

lemma list_result_set: "get_posts (GET f d) POSTS = (Posts xs, s) \<Longrightarrow> set xs = set POSTS"
  by (auto split: if_splits sum.splits dest: sort_posts_set)

subsection \<open>A created post through later requests\<close>

lemma same_extras_refl: "same_extras p p"
  by (simp add: same_extras_def)

lemma same_extras_patched: "same_extras q p \<Longrightarrow> same_extras (patched data q) p"
  by (simp add: same_extras_def map_of_patched)

lemma has_id_patched: "has_id n (patched data q) = has_id n q"
  by (simp add: has_id_def map_of_patched)

lemma py_eq_num_left: "num_of a = Some n \<Longrightarrow> py_eq a b = (num_of b = Some n)"
  by (cases a; cases b) (auto split: if_splits)

lemma has_id_num: "has_id n p = (\<exists>v. map_of p ''post_id'' = Some v \<and> num_of v = Some n)"
  by (auto simp: has_id_def py_eq_num [of "VInt n" n] split: option.splits)

lemma has_id_unique: "has_id n p \<Longrightarrow> has_id m p \<Longrightarrow> m = n"
  by (auto simp: has_id_num)

lemma dict_eq_has_id:
  assumes "dict_eq y x" and "has_id m x"
  shows "has_id m y"
proof -
  from assms(2) obtain w where w: "map_of x ''post_id'' = Some w" "num_of w = Some m"
    by (auto simp: has_id_num)
  from w(1) obtain e where e: "e \<in> set x" "fst e = ''post_id''"
    by (metis map_of_SomeD fst_conv)
  from assms(1) have "\<forall>e\<in>set x. case (map_of x (fst e), map_of y (fst e)) of
      (Some v, Some w) \<Rightarrow> py_eq v w | _ \<Rightarrow> False"
    by (simp add: dict_eq_def dict_le_def list_all_iff)
  from this e(1) have "case (map_of x (fst e), map_of y (fst e)) of
      (Some v, Some w) \<Rightarrow> py_eq v w | _ \<Rightarrow> False" by (rule bspec)
  then have "case (map_of x ''post_id'', map_of y ''post_id'') of
      (Some v, Some w) \<Rightarrow> py_eq v w | _ \<Rightarrow> False" by (simp only: e(2))
  with w obtain v where "map_of y ''post_id'' = Some v" "py_eq w v"
    by (auto split: option.splits)
  with w(2) show ?thesis by (auto simp: has_id_num py_eq_num_left)
qed

lemma list_remove_removed:
  "list_remove x ps = Inr ps' \<Longrightarrow>
   \<exists>i<length ps. dict_eq (ps ! i) x \<and> ps' = take i ps @ drop (Suc i) ps"
proof (induction ps arbitrary: ps')
  case Nil
  then show ?case by simp
next
  case (Cons y ys)
  show ?case
  proof (cases "dict_eq y x")
    case True
    with Cons.prems have "0 < length (y # ys) \<and> dict_eq ((y # ys) ! 0) x \<and>
       ps' = take 0 (y # ys) @ drop (Suc 0) (y # ys)" by simp
    then show ?thesis by blast
  next
    case False
    with Cons.prems obtain zs where zs: "list_remove x ys = Inr zs" "ps' = y # zs"
      by (auto split: sum.splits)
    from Cons.IH [OF zs(1)] obtain i where
      "i < length ys" "dict_eq (ys ! i) x" "zs = take i ys @ drop (Suc i) ys" by blast
    with zs(2) have "Suc i < length (y # ys) \<and> dict_eq ((y # ys) ! Suc i) x \<and>
       ps' = take (Suc i) (y # ys) @ drop (Suc (Suc i)) (y # ys)"
      by simp
    then show ?thesis by blast
  qed
qed

lemma delete_post_removed:
  "snd (delete_post m POSTS) = POSTS \<or>
   (\<exists>i<length POSTS. has_id m (POSTS ! i) \<and>
      snd (delete_post m POSTS) = take i POSTS @ drop (Suc i) POSTS)"
proof (cases "find_post_by_id m POSTS")
  case None
  then show ?thesis by (simp add: delete_post_def)
next
  case (Some x)
  from find_post_by_id_truthy [OF Some] have x: "has_id m x" by simp
  show ?thesis
  proof (cases "list_remove x POSTS")
    case (Inl e)
    with Some show ?thesis by (simp add: delete_post_def)
  next
    case (Inr ps')
    from list_remove_removed [OF Inr] obtain i where
      i: "i < length POSTS" "dict_eq (POSTS ! i) x" "ps' = take i POSTS @ drop (Suc i) POSTS"
      by blast
    from dict_eq_has_id [OF i(2) x] i(1,3) Some Inr show ?thesis
      by (auto simp: delete_post_def)
  qed
qed

lemma filter_remove_nth:
  assumes "i < length xs" and "\<not> P (xs ! i)"
  shows "filter P (take i xs @ drop (Suc i) xs) = filter P xs"
proof -
  have "xs = take i xs @ xs ! i # drop (Suc i) xs"
    using assms(1) by (rule id_take_nth_drop)
  then have "filter P xs = filter P (take i xs @ xs ! i # drop (Suc i) xs)" by simp
  with assms(2) show ?thesis by simp
qed

lemma filter_list_update:
  assumes "i < length xs" and "P y = P (xs ! i)"
  shows "filter P (xs[i := y]) = (if P y then filter P (take i xs) @ y # filter P (drop (Suc i) xs) else filter P xs)"
    and "filter P xs = (if P y then filter P (take i xs) @ xs ! i # filter P (drop (Suc i) xs) else filter P xs)"
proof -
  have a: "xs[i := y] = take i xs @ y # drop (Suc i) xs"
    using assms(1) by (rule upd_conv_take_nth_drop)
  have b: "xs = take i xs @ xs ! i # drop (Suc i) xs"
    using assms(1) by (rule id_take_nth_drop)
  have "filter P xs = filter P (take i xs @ xs ! i # drop (Suc i) xs)" using b by simp
  then have c: "filter P xs = filter P (take i xs) @ (if P (xs ! i) then [xs ! i] else []) @ filter P (drop (Suc i) xs)"
    by simp
  show "filter P (xs[i := y]) = (if P y then filter P (take i xs) @ y # filter P (drop (Suc i) xs) else filter P xs)"
    using assms(2) c by (simp add: a)
  show "filter P xs = (if P y then filter P (take i xs) @ xs ! i # filter P (drop (Suc i) xs) else filter P xs)"
    using assms(2) c by simp
qed

lemma create_new_id_unused:
  assumes "get_posts (POST cand) POSTS = (Created p, POSTS')"
  shows "\<exists>k. map_of p ''post_id'' = Some (VInt (k + 1)) \<and>
             (\<forall>q\<in>set POSTS. \<exists>v j. map_of q ''post_id'' = Some v \<and> num_of v = Some j \<and> j \<le> k)"
proof -
  from create_Created [OF assms] obtain m new_id where
    m: "max_post_id POSTS = Inr m" and n: "py_add1 m = Inr new_id"
    and p: "p = AList.update ''post_id'' new_id cand"
    by blast
  from n obtain k where k: "num_of m = Some k" "new_id = VInt (k + 1)"
    by (auto simp: py_add1_def split: option.splits)
  have "map_of p ''post_id'' = Some (VInt (k + 1))"
    using p k by (simp add: update_conv')
  with max_post_id_upper [OF m k(1)] show ?thesis by blast
qed

lemma created_not_has_id:
  assumes "get_posts (POST cand) POSTS = (Created p, POSTS')" and "q \<in> set POSTS" and "has_id n q"
  shows "\<not> has_id n p"
proof -
  from create_new_id_unused [OF assms(1)] obtain k where
    k: "map_of p ''post_id'' = Some (VInt (k + 1))"
    and le: "\<forall>q\<in>set POSTS. \<exists>v j. map_of q ''post_id'' = Some v \<and> num_of v = Some j \<and> j \<le> k"
    by blast
  from le assms(2) obtain v j where "map_of q ''post_id'' = Some v" "num_of v = Some j" "j \<le> k"
    by blast
  with assms(3) have "n \<le> k" by (auto simp: has_id_num)
  with k show ?thesis by (auto simp: has_id_num)
qed

lemma sole_post_created:
  assumes "get_posts (POST cand) POSTS = (Created p, POSTS')"
  shows "\<exists>n. map_of p ''post_id'' = Some (VInt n) \<and> filter (has_id n) POSTS' = [p]"
proof -
  from create_Created [OF assms] have P: "POSTS' = POSTS @ [p]" by blast
  from create_new_id_unused [OF assms] obtain k where
    k: "map_of p ''post_id'' = Some (VInt (k + 1))"
    and le: "\<forall>q\<in>set POSTS. \<exists>v j. map_of q ''post_id'' = Some v \<and> num_of v = Some j \<and> j \<le> k"
    by blast
  have "\<not> has_id (k + 1) q" if "q \<in> set POSTS" for q
  proof -
    from le that obtain v j where "map_of q ''post_id'' = Some v" "num_of v = Some j" "j \<le> k"
      by blast
    then show ?thesis by (auto simp: has_id_num)
  qed
  then have "filter (has_id (k + 1)) POSTS = []" by (simp add: filter_empty_conv)
  moreover have "has_id (k + 1) p" using k by (simp add: has_id_num)
  ultimately have "filter (has_id (k + 1)) POSTS' = [p]" using P by simp
  with k show ?thesis by blast
qed

lemma sole_post_create:
  assumes "sole_post n p POSTS"
  shows "sole_post n p (snd (get_posts (POST cand) POSTS))"
proof -
  from create_cases [of cand POSTS] show ?thesis
  proof
    assume "snd (get_posts (POST cand) POSTS) = POSTS"
    with assms show ?thesis by simp
  next
    assume "\<exists>new. get_posts (POST cand) POSTS = (Created new, POSTS @ [new])"
    then obtain new where c: "get_posts (POST cand) POSTS = (Created new, POSTS @ [new])" by blast
    from assms obtain q where q: "filter (has_id n) POSTS = [q]" "same_extras q p"
      by (auto simp: sole_post_def)
    from q(1) have "q \<in> set (filter (has_id n) POSTS)" by simp
    then have "q \<in> set POSTS" "has_id n q" by simp_all
    from created_not_has_id [OF c this] have "filter (has_id n) (POSTS @ [new]) = [q]"
      using q(1) by simp
    with q(2) c show ?thesis by (auto simp: sole_post_def)
  qed
qed

lemma sole_post_update:
  assumes "sole_post n p POSTS"
  shows "sole_post n p (snd (update_post m data POSTS))"
proof -
  from update_post_result [of m data POSTS] show ?thesis
  proof
    assume "update_post m data POSTS = (NotFoundError, POSTS) \<and> filter (has_id m) POSTS = []"
    with assms show ?thesis by simp
  next
    assume "\<exists>i. i < length POSTS \<and> has_id m (POSTS ! i) \<and> filter (has_id m) (take i POSTS) = [] \<and>
       update_post m data POSTS = (Updated m, POSTS[i := patched data (POSTS ! i)])"
    then obtain i where i: "i < length POSTS"
      and u: "update_post m data POSTS = (Updated m, POSTS[i := patched data (POSTS ! i)])" by blast
    from assms obtain q where q: "filter (has_id n) POSTS = [q]" "same_extras q p"
      by (auto simp: sole_post_def)
    have hp: "has_id n (patched data (POSTS ! i)) = has_id n (POSTS ! i)" by (rule has_id_patched)
    note f = filter_list_update [OF i hp]
    show ?thesis
    proof (cases "has_id n (POSTS ! i)")
      case False
      with f(1) hp have "filter (has_id n) (POSTS[i := patched data (POSTS ! i)]) = [q]"
        using q(1) by simp
      with q(2) u show ?thesis by (auto simp: sole_post_def)
    next
      case True
      with f(2) hp q(1) have "filter (has_id n) (take i POSTS) @ POSTS ! i # filter (has_id n) (drop (Suc i) POSTS) = [q]"
        by simp
      then have parts: "filter (has_id n) (take i POSTS) = []" "POSTS ! i = q"
        "filter (has_id n) (drop (Suc i) POSTS) = []"
        by (simp_all add: append_eq_Cons_conv)
      with f(1) hp True have "filter (has_id n) (POSTS[i := patched data (POSTS ! i)]) = [patched data q]"
        by simp
      with same_extras_patched [OF q(2), of data] u show ?thesis by (auto simp: sole_post_def)
    qed
  qed
qed

lemma sole_post_delete:
  assumes "sole_post n p POSTS" and "m \<noteq> n"
  shows "sole_post n p (snd (delete_post m POSTS))"
proof -
  from delete_post_removed [of m POSTS] show ?thesis
  proof
    assume "snd (delete_post m POSTS) = POSTS"
    with assms show ?thesis by simp
  next
    assume "\<exists>i<length POSTS. has_id m (POSTS ! i) \<and>
      snd (delete_post m POSTS) = take i POSTS @ drop (Suc i) POSTS"
    then obtain i where i: "i < length POSTS" "has_id m (POSTS ! i)"
      and d: "snd (delete_post m POSTS) = take i POSTS @ drop (Suc i) POSTS" by blast
    from i(2) assms(2) have "\<not> has_id n (POSTS ! i)" using has_id_unique by blast
    from filter_remove_nth [of i POSTS "has_id n", OF i(1) this] d assms(1)
    show ?thesis by (simp add: sole_post_def)
  qed
qed

lemma sole_post_run:
  "sole_post n p POSTS \<Longrightarrow> Delete n \<notin> set ops \<Longrightarrow> sole_post n p (run ops POSTS)"
proof (induction ops arbitrary: POSTS)
  case Nil
  then show ?case by simp
next
  case (Cons op ops)
  have "sole_post n p (apply_operation op POSTS)"
  proof (cases op)
    case (Create c)
    with sole_post_create [OF Cons.prems(1)] show ?thesis by (simp del: get_posts.simps)
  next
    case (Update m d)
    with sole_post_update [OF Cons.prems(1)] show ?thesis by simp
  next
    case (Delete m)
    with Cons.prems(2) have "m \<noteq> n" by auto
    from sole_post_delete [OF Cons.prems(1) this] Delete show ?thesis by simp
  qed
  moreover from Cons.prems(2) have "Delete n \<notin> set ops" by simp
  ultimately show ?case using Cons.IH by simp
qed

lemma sole_post_results:
  assumes "filter (has_id n) S = [q]"
  shows "(\<forall>f d xs s. get_posts (GET f d) S = (Posts xs, s) \<longrightarrow> q \<in> set xs) \<and>
         (\<forall>i c t xs s x. post_search i c t S = (Posts xs, s) \<and> x \<in> set xs \<and> has_id n x \<longrightarrow> x = q) \<and>
         (\<forall>s c t. s \<noteq> [] \<and> py_int s = Inr n \<longrightarrow> post_search (Some s) c t S = (Posts [q], S))"
proof (intro conjI allI impI)
  from assms have "q \<in> set (filter (has_id n) S)" by simp
  then have qS: "q \<in> set S" by simp
  fix f d xs s
  assume "get_posts (GET f d) S = (Posts xs, s)"
  from list_result_set [OF this] qS show "q \<in> set xs" by simp
next
  fix i c t xs s x
  assume a: "post_search i c t S = (Posts xs, s) \<and> x \<in> set xs \<and> has_id n x"
  then have "post_search i c t S = (Posts xs, s)" by simp
  from search_result_subset [OF this] a have "x \<in> set (filter (has_id n) S)" by auto
  with assms show "x = q" by simp
next
  fix s c t
  assume a: "s \<noteq> [] \<and> py_int s = Inr n"
  then have "truthy_str (Some s)" "py_int (the (Some s)) = Inr n" by simp_all
  from search_by_id [OF this, of c t S] assms show "post_search (Some s) c t S = (Posts [q], S)"
    by simp
qed

lemma sole_post_later:
  assumes sole: "sole_post n p POSTS'" and d: "Delete n \<notin> set ops"
  shows "\<exists>q. filter (has_id n) (run ops POSTS') = [q] \<and>
                      (\<forall>k. k \<noteq> ''title'' \<and> k \<noteq> ''content'' \<longrightarrow> map_of q k = map_of p k) \<and>
                      (\<forall>f d xs s. get_posts (GET f d) (run ops POSTS') = (Posts xs, s) \<longrightarrow> q \<in> set xs) \<and>
                      (\<forall>i c t xs s x. post_search i c t (run ops POSTS') = (Posts xs, s) \<and>
                          x \<in> set xs \<and> has_id n x \<longrightarrow> x = q) \<and>
                      (\<forall>s c t. s \<noteq> [] \<and> py_int s = Inr n \<longrightarrow>
                          post_search (Some s) c t (run ops POSTS') = (Posts [q], run ops POSTS'))"
proof -
    from sole_post_run [OF sole d]
    have "\<exists>q. filter (has_id n) (run ops POSTS') = [q] \<and> same_extras q p"
      unfolding sole_post_def .
    then obtain q where qe: "filter (has_id n) (run ops POSTS') = [q] \<and> same_extras q p" ..
    note q = qe [THEN conjunct1]
    from qe [THEN conjunct2]
    have e: "\<forall>k. k \<noteq> ''title'' \<and> k \<noteq> ''content'' \<longrightarrow> map_of q k = map_of p k"
      unfolding same_extras_def .
    note r = sole_post_results [OF q]
    note r1 = r [THEN conjunct1] and r2 = r [THEN conjunct2, THEN conjunct1]
      and r3 = r [THEN conjunct2, THEN conjunct2]
    show ?thesis
      apply (rule exI [of _ q])
      apply (rule conjI [OF q])
      apply (rule conjI [OF e])
      apply (rule conjI [OF r1])
      apply (rule conjI [OF r2])
      apply (rule r3)
      done
qed

section \<open>The claims\<close>

subsection \<open>C1: id assignment on create\<close>

text \<open>
  C1. Creating a valid, non-duplicate post grows the collection by one and gives the new
  post the previous maximum id plus one; on an empty collection the assigned id is 1.

  On a collection that is not empty the source does this (lemma \<open>create_success\<close>). On
  an empty collection it does not: \<^verbatim>\<open>max\<close> of no ids raises ValueError, no handler
  catches it, and nothing is stored. The empty collection is reached from the initial one by
  deleting both posts.
\<close>

theorem create_on_emptied_collection_raises:
  "run [Delete 1, Delete 2] POSTS_initial = [] \<and>
   get_posts (POST [(''title'', VStr ''a''), (''content'', VStr ''b'')]) [] = (Raised ValueError, [])"
  by code_simp

subsection \<open>C2: search never fails\<close>

text \<open>
  C2. For every combination of the optional parameters \<^verbatim>\<open>post_id\<close>, \<^verbatim>\<open>title\<close> and
  \<^verbatim>\<open>content\<close>, non-numeric \<^verbatim>\<open>post_id\<close> values included, search succeeds and returns a
  possibly empty sequence of posts.

  The source passes a non-empty \<^verbatim>\<open>post_id\<close> to \<^verbatim>\<open>int\<close> with no guard: on
  \<^verbatim>\<open>post_id=abc\<close> the conversion raises ValueError and the view function returns no list.
\<close>

theorem search_non_numeric_post_id_raises:
  "post_search (Some ''abc'') None None POSTS_initial = (Raised ValueError, POSTS_initial)"
  by code_simp

subsection \<open>C3: the branches of search\<close>




subsection \<open>C4: descending order is the reverse of ascending order\<close>

text \<open>
  C4. For every collection and every valid sort field, the listing with direction
  \<^verbatim>\<open>desc\<close> is the element-wise reverse of the listing with direction \<^verbatim>\<open>asc\<close> for
  that field (and where the ascending listing ends in an error, the descending one ends in
  the same error). The ascending listing keeps posts tied on the field in insertion order,
  so under \<^verbatim>\<open>desc\<close> they appear in the reverse of insertion order.
\<close>

theorem list_desc_reverses_asc:
  assumes "is_valid_sort_field f"
  shows "(case get_posts (GET (Some f) (Some ''asc'')) POSTS of
            (Posts asc, s) \<Rightarrow>
               get_posts (GET (Some f) (Some ''desc'')) POSTS = (Posts (rev asc), s) \<and>
               (\<forall>q. filter (tied f q) asc = filter (tied f q) POSTS) \<and>
               (\<forall>q. filter (tied f q) (rev asc) = rev (filter (tied f q) POSTS))
          | (r, s) \<Rightarrow> get_posts (GET (Some f) (Some ''desc'')) POSTS = (r, s))"
proof (cases "py_sorted f POSTS")
  case (Inl e)
  then show ?thesis by (simp add: list_asc [OF assms] list_desc [OF assms] del: get_posts.simps)
next
  case (Inr xs)
  have "filter (tied f q) (rev xs) = rev (filter (tied f q) POSTS)" for q
    using py_sorted_stable [OF Inr, of q] by (simp add: rev_filter [symmetric])
  with Inr py_sorted_stable [OF Inr] show ?thesis
    by (simp add: list_asc [OF assms] list_desc [OF assms] del: get_posts.simps)
qed

theorem list_desc_reverses_asc_witness:
  "is_valid_sort_field ''title'' \<and>
   get_posts (GET (Some ''title'') (Some ''desc'')) POSTS_tied =
     (Posts [POSTS_tied ! 2, POSTS_tied ! 0, POSTS_tied ! 1], POSTS_tied)"
proof -
  have v: "is_valid_sort_field ''title''" by (simp add: is_valid_sort_field_def)
  have asc: "get_posts (GET (Some ''title'') (Some ''asc'')) POSTS_tied =
     (Posts [POSTS_tied ! 1, POSTS_tied ! 0, POSTS_tied ! 2], POSTS_tied)" by code_simp
  from list_desc_reverses_asc [OF v, of POSTS_tied]
  have "get_posts (GET (Some ''title'') (Some ''desc'')) POSTS_tied =
     (Posts (rev [POSTS_tied ! 1, POSTS_tied ! 0, POSTS_tied ! 2]), POSTS_tied)"
    unfolding asc by simp
  with v show ?thesis by simp
qed

subsection \<open>C5: update touches only the fields of the patch\<close>

text \<open>
  C5. When a post with id \<open>X\<close> exists, the update succeeds and changes one position
  \<open>i\<close> of the collection, the first post with id \<open>X\<close>: every other position is unchanged, a
  key that is not one of \<^verbatim>\<open>title\<close>/\<^verbatim>\<open>content\<close> or is absent from the patch keeps
  its value, and \<^verbatim>\<open>title\<close>/\<^verbatim>\<open>content\<close> present in the patch take the patch's value.
  For a patch that has a title \<open>T\<close> and no content, the post's title becomes \<open>T\<close> and
  its content and id are as before.
\<close>

theorem update_title_only:
  assumes "p \<in> set POSTS" and "has_id X p"
  shows "\<exists>i POSTS'. i < length POSTS \<and> has_id X (POSTS ! i) \<and>
           filter (has_id X) (take i POSTS) = [] \<and>
           update_post X data POSTS = (Updated X, POSTS') \<and>
           length POSTS' = length POSTS \<and>
           (\<forall>j<length POSTS. j \<noteq> i \<longrightarrow> POSTS' ! j = POSTS ! j) \<and>
           (\<forall>k. (k \<noteq> ''title'' \<and> k \<noteq> ''content'') \<or> map_of data k = None \<longrightarrow>
                map_of (POSTS' ! i) k = map_of (POSTS ! i) k) \<and>
           (\<forall>k. (k = ''title'' \<or> k = ''content'') \<and> map_of data k \<noteq> None \<longrightarrow>
                map_of (POSTS' ! i) k = map_of data k) \<and>
           (map_of data ''title'' = Some T \<and> map_of data ''content'' = None \<longrightarrow>
              POSTS' = POSTS[i := AList.update ''title'' T (POSTS ! i)] \<and>
              map_of (POSTS' ! i) ''title'' = Some T \<and>
              map_of (POSTS' ! i) ''content'' = map_of (POSTS ! i) ''content'' \<and>
              map_of (POSTS' ! i) ''post_id'' = map_of (POSTS ! i) ''post_id'')"
proof -
  from assms have "filter (has_id X) POSTS \<noteq> []" by (auto simp: filter_empty_conv)
  with update_post_result [of X data POSTS] obtain i where
    i: "i < length POSTS" "has_id X (POSTS ! i)" "filter (has_id X) (take i POSTS) = []"
    and u: "update_post X data POSTS = (Updated X, POSTS[i := patched data (POSTS ! i)])"
    by blast
  define Q where "Q = POSTS[i := patched data (POSTS ! i)]"
  have at: "Q ! i = patched data (POSTS ! i)" using i(1) by (simp add: Q_def)
  have len: "length Q = length POSTS" by (simp add: Q_def)
  have others: "\<forall>j<length POSTS. j \<noteq> i \<longrightarrow> Q ! j = POSTS ! j" by (simp add: Q_def)
  have absent: "\<forall>k. (k \<noteq> ''title'' \<and> k \<noteq> ''content'') \<or> map_of data k = None \<longrightarrow>
                map_of (Q ! i) k = map_of (POSTS ! i) k"
    by (simp add: at map_of_patched)
  have present: "\<forall>k. (k = ''title'' \<or> k = ''content'') \<and> map_of data k \<noteq> None \<longrightarrow>
                map_of (Q ! i) k = map_of data k"
    by (simp add: at map_of_patched)
  have only_title: "map_of data ''title'' = Some T \<and> map_of data ''content'' = None \<longrightarrow>
              Q = POSTS[i := AList.update ''title'' T (POSTS ! i)] \<and>
              map_of (Q ! i) ''title'' = Some T \<and>
              map_of (Q ! i) ''content'' = map_of (POSTS ! i) ''content'' \<and>
              map_of (Q ! i) ''post_id'' = map_of (POSTS ! i) ''post_id''"
  proof
    assume d: "map_of data ''title'' = Some T \<and> map_of data ''content'' = None"
    then have "patched data (POSTS ! i) = AList.update ''title'' T (POSTS ! i)"
      by (simp add: patched_def)
    then have "Q = POSTS[i := AList.update ''title'' T (POSTS ! i)]" by (simp add: Q_def)
    moreover have "map_of (Q ! i) ''title'' = Some T" using d by (simp add: at map_of_patched)
    moreover have "map_of (Q ! i) ''content'' = map_of (POSTS ! i) ''content''"
      using d by (simp add: at map_of_patched)
    moreover have "map_of (Q ! i) ''post_id'' = map_of (POSTS ! i) ''post_id''"
      by (simp add: at map_of_patched)
    ultimately show "Q = POSTS[i := AList.update ''title'' T (POSTS ! i)] \<and>
              map_of (Q ! i) ''title'' = Some T \<and>
              map_of (Q ! i) ''content'' = map_of (POSTS ! i) ''content'' \<and>
              map_of (Q ! i) ''post_id'' = map_of (POSTS ! i) ''post_id''"
      by (simp only: simp_thms)
  qed
  from u have u': "update_post X data POSTS = (Updated X, Q)" by (simp only: Q_def)
  from i u' len others absent present only_title
  have "i < length POSTS \<and> has_id X (POSTS ! i) \<and>
           filter (has_id X) (take i POSTS) = [] \<and>
           update_post X data POSTS = (Updated X, Q) \<and>
           length Q = length POSTS \<and>
           (\<forall>j<length POSTS. j \<noteq> i \<longrightarrow> Q ! j = POSTS ! j) \<and>
           (\<forall>k. (k \<noteq> ''title'' \<and> k \<noteq> ''content'') \<or> map_of data k = None \<longrightarrow>
                map_of (Q ! i) k = map_of (POSTS ! i) k) \<and>
           (\<forall>k. (k = ''title'' \<or> k = ''content'') \<and> map_of data k \<noteq> None \<longrightarrow>
                map_of (Q ! i) k = map_of data k) \<and>
           (map_of data ''title'' = Some T \<and> map_of data ''content'' = None \<longrightarrow>
              Q = POSTS[i := AList.update ''title'' T (POSTS ! i)] \<and>
              map_of (Q ! i) ''title'' = Some T \<and>
              map_of (Q ! i) ''content'' = map_of (POSTS ! i) ''content'' \<and>
              map_of (Q ! i) ''post_id'' = map_of (POSTS ! i) ''post_id'')"
    by (intro conjI)
  then show ?thesis by (intro exI)
qed

theorem update_title_only_witness:
  "POSTS_initial ! 1 \<in> set POSTS_initial \<and> has_id 2 (POSTS_initial ! 1) \<and>
   (\<exists>POSTS'. update_post 2 [(''title'', VStr ''T'')] POSTS_initial = (Updated 2, POSTS') \<and>
      length POSTS' = length POSTS_initial)"
proof -
  have h1: "POSTS_initial ! 1 \<in> set POSTS_initial" by (simp add: POSTS_initial_def)
  have h2: "has_id 2 (POSTS_initial ! 1)" by (simp add: POSTS_initial_def has_id_def)
  from update_title_only [OF h1 h2, of "[(''title'', VStr ''T'')]" "VStr ''T''"]
  have "\<exists>POSTS'. update_post 2 [(''title'', VStr ''T'')] POSTS_initial = (Updated 2, POSTS') \<and>
      length POSTS' = length POSTS_initial" by blast
  with h1 h2 show ?thesis by (simp only: simp_thms)
qed

subsection \<open>C6: a duplicate is rejected and nothing changes\<close>

text \<open>
  C6. Over a collection whose posts all have a title and a content (every collection
  reachable from the initial one: lemmas \<open>initial_has_fields\<close> and
  \<open>run_preserves_fields\<close>), a candidate whose title and content are those of some
  existing post is answered with DuplicateError, and the collection is left as it was.
\<close>

theorem create_duplicate_rejected:
  assumes "has_title_and_content POSTS" and "e \<in> set POSTS"
    and "map_of e ''title'' = Some t" and "map_of e ''content'' = Some c"
    and "map_of cand ''title'' = Some t" and "map_of cand ''content'' = Some c"
  shows "get_posts (POST cand) POSTS = (DuplicateError, POSTS)"
  using assms by (rule create_duplicate)

theorem create_duplicate_rejected_witness:
  "has_title_and_content POSTS_initial \<and>
   get_posts (POST [(''content'', VStr ''This is the first post.''), (''title'', VStr ''First post'')])
     POSTS_initial = (DuplicateError, POSTS_initial)"
proof -
  have h1: "has_title_and_content POSTS_initial" by (rule initial_has_fields)
  have h2: "POSTS_initial ! 0 \<in> set POSTS_initial" by (simp add: POSTS_initial_def)
  have h3: "map_of (POSTS_initial ! 0) ''title'' = Some (VStr ''First post'')"
    by (simp add: POSTS_initial_def)
  have h4: "map_of (POSTS_initial ! 0) ''content'' = Some (VStr ''This is the first post.'')"
    by (simp add: POSTS_initial_def)
  have h5: "map_of [(''content'', VStr ''This is the first post.''), (''title'', VStr ''First post'')]
      ''title'' = Some (VStr ''First post'')" by simp
  have h6: "map_of [(''content'', VStr ''This is the first post.''), (''title'', VStr ''First post'')]
      ''content'' = Some (VStr ''This is the first post.'')" by simp
  from create_duplicate_rejected [OF h1 h2 h3 h4 h5 h6] h1 show ?thesis by (simp only: simp_thms)
qed

subsection \<open>C7: validation checks the presence of the two keys\<close>

text \<open>
  C7. Create answers ValidationError exactly when the key \<^verbatim>\<open>title\<close> or the key
  \<^verbatim>\<open>content\<close> is absent from the candidate; then the collection is unchanged. A
  candidate whose title and content are empty strings is not a validation error.
\<close>

theorem create_validation_error_iff:
  "((fst (get_posts (POST cand) POSTS) = ValidationError) =
      (map_of cand ''title'' = None \<or> map_of cand ''content'' = None)) \<and>
   (fst (get_posts (POST cand) POSTS) = ValidationError \<longrightarrow>
      snd (get_posts (POST cand) POSTS) = POSTS) \<and>
   (map_of cand ''title'' = Some (VStr []) \<and> map_of cand ''content'' = Some (VStr []) \<longrightarrow>
      fst (get_posts (POST cand) POSTS) \<noteq> ValidationError)"
proof -
  have "map_of cand ''title'' = Some (VStr []) \<and> map_of cand ''content'' = Some (VStr []) \<longrightarrow>
      fst (get_posts (POST cand) POSTS) \<noteq> ValidationError"
    by (simp add: create_validation del: get_posts.simps)
  with create_validation [of cand POSTS] create_validation_unchanged [of cand POSTS]
  show ?thesis by blast
qed

theorem create_validation_error_iff_witness:
  "fst (get_posts (POST [(''title'', VStr [])]) POSTS_initial) = ValidationError \<and>
   snd (get_posts (POST [(''title'', VStr [])]) POSTS_initial) = POSTS_initial \<and>
   fst (get_posts (POST [(''title'', VStr []), (''content'', VStr [])]) POSTS_initial) \<noteq> ValidationError"
proof -
  have a: "map_of [(''title'', VStr [])] ''title'' = None \<or> map_of [(''title'', VStr [])] ''content'' = None"
    by simp
  have b: "map_of [(''title'', VStr []), (''content'', VStr [])] ''title'' = Some (VStr []) \<and>
           map_of [(''title'', VStr []), (''content'', VStr [])] ''content'' = Some (VStr [])"
    by simp
  from create_validation_error_iff [of "[(''title'', VStr [])]" POSTS_initial] a
  have "fst (get_posts (POST [(''title'', VStr [])]) POSTS_initial) = ValidationError \<and>
        snd (get_posts (POST [(''title'', VStr [])]) POSTS_initial) = POSTS_initial" by blast
  moreover
  from create_validation_error_iff [of "[(''title'', VStr []), (''content'', VStr [])]" POSTS_initial] b
  have "fst (get_posts (POST [(''title'', VStr []), (''content'', VStr [])]) POSTS_initial) \<noteq> ValidationError"
    by blast
  ultimately show ?thesis by (simp only: simp_thms)
qed

subsection \<open>C8: ids stay pairwise distinct\<close>

text \<open>
  C8. Starting from a collection of posts with pairwise distinct integer ids, after any
  sequence of create, update and delete requests the ids are still pairwise distinct
  integers. A created post has an id greater than every id in the collection, an update
  leaves the list of ids as it is, and a delete leaves the collection as it is or removes
  one position.
\<close>

theorem ids_stay_distinct:
  assumes "int_ids POSTS" and "distinct (map id_of POSTS)"
  shows "int_ids (run ops POSTS) \<and> distinct (map id_of (run ops POSTS)) \<and>
         (\<forall>cand p POSTS'. get_posts (POST cand) POSTS = (Created p, POSTS') \<longrightarrow>
            (\<forall>q\<in>set POSTS. id_of q < id_of p)) \<and>
         (\<forall>n data. map id_of (snd (update_post n data POSTS)) = map id_of POSTS) \<and>
         (\<forall>n. snd (delete_post n POSTS) = POSTS \<or>
              (\<exists>i<length POSTS. snd (delete_post n POSTS) = take i POSTS @ drop (Suc i) POSTS))"
proof -
  have "\<forall>cand p POSTS'. get_posts (POST cand) POSTS = (Created p, POSTS') \<longrightarrow>
            (\<forall>q\<in>set POSTS. id_of q < id_of p)"
    using create_new_id_greater [OF assms(1)] by blast
  moreover have "\<forall>n data. map id_of (snd (update_post n data POSTS)) = map id_of POSTS"
    by (simp add: update_keeps_ids)
  moreover have "\<forall>n. snd (delete_post n POSTS) = POSTS \<or>
              (\<exists>i<length POSTS. snd (delete_post n POSTS) = take i POSTS @ drop (Suc i) POSTS)"
    using delete_post_result by blast
  ultimately show ?thesis using run_preserves [OF assms, of ops] by (simp only: simp_thms)
qed

theorem ids_stay_distinct_witness:
  "int_ids POSTS_initial \<and> distinct (map id_of POSTS_initial) \<and>
   distinct (map id_of (run [Create [(''title'', VStr ''Third post''), (''content'', VStr ''This is the third post.'')],
                             Delete 1,
                             Update 2 [(''title'', VStr ''T'')],
                             Create [(''title'', VStr ''x''), (''content'', VStr ''y''), (''post_id'', VInt 2)]]
                        POSTS_initial))"
proof -
  have h1: "int_ids POSTS_initial" using initial_ids by simp
  have h2: "distinct (map id_of POSTS_initial)" using initial_ids by simp
  from ids_stay_distinct [OF h1 h2] h1 h2 show ?thesis by blast
qed

subsection \<open>C9: create stores the candidate with all its keys\<close>

text \<open>
  C9. When create succeeds, the post it returns is the post it appends to the collection:
  the candidate with the assigned id \<open>n\<close> written under \<^verbatim>\<open>post_id\<close>. Every key of the
  candidate is a key of that post, and every key other than \<^verbatim>\<open>post_id\<close> has the value
  the candidate gave it. From then on, after any sequence of create, update and delete
  requests that does not delete id \<open>n\<close>, the collection has exactly one post with id
  \<open>n\<close>; it has the stored post's value under every key other than \<^verbatim>\<open>title\<close> and
  \<^verbatim>\<open>content\<close>; it is an element of every listing; a post with id \<open>n\<close> in any search
  result is that post; and the search for id \<open>n\<close> returns exactly that post.
\<close>

theorem create_keeps_extra_keys:
  assumes "get_posts (POST cand) POSTS = (Created p, POSTS')"
  shows "POSTS' = POSTS @ [p] \<and>
         (\<forall>k. k \<noteq> ''post_id'' \<longrightarrow> map_of p k = map_of cand k) \<and>
         (\<forall>k. map_of cand k \<noteq> None \<longrightarrow> map_of p k \<noteq> None) \<and>
         (\<exists>n. map_of p ''post_id'' = Some (VInt n) \<and>
              filter (has_id n) POSTS' = [p] \<and>
              (\<forall>ops. Delete n \<notin> set ops \<longrightarrow>
                 (\<exists>q. filter (has_id n) (run ops POSTS') = [q] \<and>
                      (\<forall>k. k \<noteq> ''title'' \<and> k \<noteq> ''content'' \<longrightarrow> map_of q k = map_of p k) \<and>
                      (\<forall>f d xs s. get_posts (GET f d) (run ops POSTS') = (Posts xs, s) \<longrightarrow> q \<in> set xs) \<and>
                      (\<forall>i c t xs s x. post_search i c t (run ops POSTS') = (Posts xs, s) \<and>
                          x \<in> set xs \<and> has_id n x \<longrightarrow> x = q) \<and>
                      (\<forall>s c t. s \<noteq> [] \<and> py_int s = Inr n \<longrightarrow>
                          post_search (Some s) c t (run ops POSTS') = (Posts [q], run ops POSTS')))))"
proof -
  from create_Created [OF assms] obtain new_id where
    p: "p = AList.update ''post_id'' new_id cand" and P: "POSTS' = POSTS @ [p]"
    by blast
  have k1: "\<forall>k. k \<noteq> ''post_id'' \<longrightarrow> map_of p k = map_of cand k"
    using p by (simp add: update_conv')
  have k2: "\<forall>k. map_of cand k \<noteq> None \<longrightarrow> map_of p k \<noteq> None"
    using p by (simp add: update_conv')
  from sole_post_created [OF assms] obtain n where
    nf: "map_of p ''post_id'' = Some (VInt n) \<and> filter (has_id n) POSTS' = [p]" ..
  note n = nf [THEN conjunct1] and f = nf [THEN conjunct2]
  have "\<exists>q. filter (has_id n) POSTS' = [q] \<and> same_extras q p"
    apply (rule exI [of _ p])
    apply (rule conjI [OF f])
    apply (rule same_extras_refl)
    done
  then have sole: "sole_post n p POSTS'" unfolding sole_post_def .
  show ?thesis
    apply (rule conjI [OF P])
    apply (rule conjI [OF k1])
    apply (rule conjI [OF k2])
    apply (rule exI [of _ n])
    apply (rule conjI [OF n])
    apply (rule conjI [OF f])
    apply (intro allI impI)
    apply (erule sole_post_later [OF sole])
    done
qed

theorem create_keeps_extra_keys_witness:
  "get_posts (POST candidate_with_author) POSTS_initial =
     (Created stored_with_author, POSTS_initial @ [stored_with_author]) \<and>
   Delete 3 \<notin> set later_requests \<and>
   (\<exists>q. post_search (Some ''3'') None None (run later_requests (POSTS_initial @ [stored_with_author])) =
           (Posts [q], run later_requests (POSTS_initial @ [stored_with_author])) \<and>
        map_of q ''author'' = Some (VStr ''Ann''))"
proof -
  have c: "get_posts (POST candidate_with_author) POSTS_initial =
     (Created stored_with_author, POSTS_initial @ [stored_with_author])"
    by code_simp
  have d: "Delete 3 \<notin> set later_requests" by (simp add: later_requests_def)
  have i: "''3'' \<noteq> [] \<and> py_int ''3'' = Inr 3" by code_simp
  have a: "map_of stored_with_author ''author'' = Some (VStr ''Ann'')" by code_simp
  have ne: "''author'' \<noteq> ''title'' \<and> ''author'' \<noteq> ''content''" by simp
  have id3: "map_of stored_with_author ''post_id'' = Some (VInt 3)" by code_simp
  note r = create_keeps_extra_keys [OF c, THEN conjunct2, THEN conjunct2, THEN conjunct2]
  from r obtain n where nl: "map_of stored_with_author ''post_id'' = Some (VInt n) \<and>
      filter (has_id n) (POSTS_initial @ [stored_with_author]) = [stored_with_author] \<and>
      (\<forall>ops. Delete n \<notin> set ops \<longrightarrow>
         (\<exists>q. filter (has_id n) (run ops (POSTS_initial @ [stored_with_author])) = [q] \<and>
              (\<forall>k. k \<noteq> ''title'' \<and> k \<noteq> ''content'' \<longrightarrow> map_of q k = map_of stored_with_author k) \<and>
              (\<forall>f d xs s. get_posts (GET f d) (run ops (POSTS_initial @ [stored_with_author])) = (Posts xs, s) \<longrightarrow> q \<in> set xs) \<and>
              (\<forall>i c t xs s x. post_search i c t (run ops (POSTS_initial @ [stored_with_author])) = (Posts xs, s) \<and>
                  x \<in> set xs \<and> has_id n x \<longrightarrow> x = q) \<and>
              (\<forall>s c t. s \<noteq> [] \<and> py_int s = Inr n \<longrightarrow>
                  post_search (Some s) c t (run ops (POSTS_initial @ [stored_with_author])) =
                    (Posts [q], run ops (POSTS_initial @ [stored_with_author])))))" ..
  from nl [THEN conjunct1] id3 have n3: "n = 3" by simp
  note l = nl [THEN conjunct2, THEN conjunct2, unfolded n3, rule_format, OF d]
  from l obtain q where qq: "filter (has_id 3) (run later_requests (POSTS_initial @ [stored_with_author])) = [q] \<and>
          (\<forall>k. k \<noteq> ''title'' \<and> k \<noteq> ''content'' \<longrightarrow> map_of q k = map_of stored_with_author k) \<and>
          (\<forall>f d xs s. get_posts (GET f d) (run later_requests (POSTS_initial @ [stored_with_author])) = (Posts xs, s) \<longrightarrow> q \<in> set xs) \<and>
          (\<forall>i c t xs s x. post_search i c t (run later_requests (POSTS_initial @ [stored_with_author])) = (Posts xs, s) \<and>
              x \<in> set xs \<and> has_id 3 x \<longrightarrow> x = q) \<and>
          (\<forall>s c t. s \<noteq> [] \<and> py_int s = Inr 3 \<longrightarrow>
              post_search (Some s) c t (run later_requests (POSTS_initial @ [stored_with_author])) = (Posts [q], run later_requests (POSTS_initial @ [stored_with_author])))" ..
  note e = qq [THEN conjunct2, THEN conjunct1, rule_format, OF ne]
  note s = qq [THEN conjunct2, THEN conjunct2, THEN conjunct2, THEN conjunct2, rule_format, OF i]
  from e a have au: "map_of q ''author'' = Some (VStr ''Ann'')" by (simp only:)
  show ?thesis
    apply (rule conjI [OF c])
    apply (rule conjI [OF d])
    apply (rule exI [of _ q])
    apply (rule conjI [OF s au])
    done
qed

subsection \<open>C10: an empty search parameter counts as absent\<close>

text \<open>
  C10. A search parameter given as the empty string is treated as if it were not given:
  for each of the three parameters, the search with the empty string is the search
  without the parameter, whatever the other two are; and with all three empty the result
  is the empty sequence.
\<close>

theorem search_empty_parameter_is_absent:
  "post_search (Some []) content title POSTS = post_search None content title POSTS \<and>
   post_search post_id (Some []) title POSTS = post_search post_id None title POSTS \<and>
   post_search post_id content (Some []) POSTS = post_search post_id content None POSTS \<and>
   post_search (Some []) (Some []) (Some []) POSTS = (Posts [], POSTS)"
  by (simp add: post_search_def split: sum.splits)

end
